theory Spec2Isabelle
  imports Main
begin

section \<open>Python string primitives\<close>

text \<open>
  A Python \<open>str\<close> is modelled as a \<open>string\<close> whose characters are the code points
  0 to 255, so \<open>length\<close> counts what Python's \<open>len\<close> counts. Offsets and sizes that the
  source subtracts or compares with configuration values are \<open>int\<close>, as Python's are.
\<close>

definition NL :: char where
  "NL = CHR 0x0A"

text \<open>\<open>str.isspace\<close> and the regex class \<open>\s\<close> agree on the code points below 256.\<close>

definition is_space :: "char \<Rightarrow> bool" where
  "is_space c = (c \<in> set [CHR 0x09, CHR 0x0A, CHR 0x0B, CHR 0x0C, CHR 0x0D,
                          CHR 0x1C, CHR 0x1D, CHR 0x1E, CHR 0x1F, CHR 0x20, CHR 0x85, CHR 0xA0])"

definition lstrip :: "string \<Rightarrow> string" where
  "lstrip s = dropWhile is_space s"

definition rstrip :: "string \<Rightarrow> string" where
  "rstrip s = rev (dropWhile is_space (rev s))"

definition strip :: "string \<Rightarrow> string" where
  "strip s = lstrip (rstrip s)"

text \<open>\<open>s[a:b]\<close> for \<open>0 \<le> a\<close>, \<open>0 \<le> b\<close>.\<close>

definition slice :: "nat \<Rightarrow> nat \<Rightarrow> string \<Rightarrow> string" where
  "slice a b s = take (b - a) (drop a s)"

definition len :: "string \<Rightarrow> int" where
  "len s = int (length s)"

fun startswith :: "string \<Rightarrow> string \<Rightarrow> bool" where
  "startswith s [] = True"
| "startswith [] (p # ps) = False"
| "startswith (c # cs) (p # ps) = (c = p \<and> startswith cs ps)"

text \<open>
  \<open>find_sub sub pos s\<close>: the first offset, counted from \<open>pos\<close> at the head of \<open>s\<close>, at
  which \<open>sub\<close> occurs in \<open>s\<close>. \<open>py_find\<close> is \<open>text.find(sub, start)\<close>, \<open>None\<close> for -1.
\<close>

fun find_sub :: "string \<Rightarrow> nat \<Rightarrow> string \<Rightarrow> nat option" where
  "find_sub sub pos [] = (if sub = [] then Some pos else None)"
| "find_sub sub pos (c # cs) =
     (if startswith (c # cs) sub then Some pos else find_sub sub (pos + 1) cs)"

definition py_find :: "string \<Rightarrow> nat \<Rightarrow> string \<Rightarrow> nat option" where
  "py_find sub start text =
     (if length text < start then None else find_sub sub start (drop start text))"

definition py_contains :: "string \<Rightarrow> string \<Rightarrow> bool" where
  "py_contains sub s = (find_sub sub 0 s \<noteq> None)"

fun split_nl :: "string \<Rightarrow> string list" where
  "split_nl [] = [[]]"
| "split_nl (c # cs) =
     (if c = NL then [] # split_nl cs
      else (case split_nl cs of [] \<Rightarrow> [[c]] | l # ls \<Rightarrow> (c # l) # ls))"

fun join_nn :: "string list \<Rightarrow> string" where
  "join_nn [] = []"
| "join_nn [p] = p"
| "join_nn (p # q # ps) = p @ [NL, NL] @ join_nn (q # ps)"

definition digit_char :: "nat \<Rightarrow> char" where
  "digit_char d = char_of (48 + d)"

function show_nat :: "nat \<Rightarrow> string" where
  "show_nat n = (if n < 10 then [digit_char n] else show_nat (n div 10) @ [digit_char (n mod 10)])"
  by pat_completeness auto
termination
  by (relation "measure id") auto

declare show_nat.simps [simp del]

definition show_int :: "int \<Rightarrow> string" where
  "show_int i = (if i < 0 then CHR ''-'' # show_nat (nat (- i)) else show_nat (nat i))"

section \<open>ChunkingPipeline: configuration\<close>

text \<open>
  The optional tokenizer is what \<open>tiktoken.encoding_for_model\<close> gave at construction, if
  anything: applied to a text it yields the number of tokens, or \<open>None\<close> when encoding
  raises.
\<close>

record ChunkingPipeline =
  chunk_tokens :: int
  overlap_tokens :: int
  min_chunk_tokens :: int
  char_ratio :: int
  tokenizer :: "(string \<Rightarrow> int option) option"

definition ChunkingPipeline_init ::
  "(string \<Rightarrow> int option) option \<Rightarrow> int \<Rightarrow> int \<Rightarrow> int \<Rightarrow> ChunkingPipeline" where
  "ChunkingPipeline_init tok ct ot mt =
     (let chunk_tokens' = max ct 64 in
      \<lparr> chunk_tokens = chunk_tokens',
        overlap_tokens = max (min ot (chunk_tokens' div 4)) 0,
        min_chunk_tokens = max mt 20,
        char_ratio = 4,
        tokenizer = tok \<rparr>)"

text \<open>The sizes \<open>build\<close> derives from the instance and its per-call overrides.\<close>

definition target_chunk_tokens :: "ChunkingPipeline \<Rightarrow> int option \<Rightarrow> int" where
  "target_chunk_tokens p ov = (case ov of Some c \<Rightarrow> c | None \<Rightarrow> chunk_tokens p)"

definition target_overlap_tokens :: "ChunkingPipeline \<Rightarrow> int option \<Rightarrow> int" where
  "target_overlap_tokens p ov = (case ov of Some c \<Rightarrow> c | None \<Rightarrow> overlap_tokens p)"

definition max_chunk_chars :: "ChunkingPipeline \<Rightarrow> int option \<Rightarrow> int" where
  "max_chunk_chars p ov = target_chunk_tokens p ov * char_ratio p"

definition min_chunk_chars :: "ChunkingPipeline \<Rightarrow> int" where
  "min_chunk_chars p = min_chunk_tokens p * char_ratio p"

definition overlap_chars_of :: "ChunkingPipeline \<Rightarrow> int option \<Rightarrow> int" where
  "overlap_chars_of p ov = target_overlap_tokens p ov * char_ratio p"

section \<open>ChunkingPipeline: structure patterns\<close>

text \<open>
  Each compiled pattern of the module is a scanner over the text. A scanner walks the
  characters once, carries the offset \<open>pos\<close> of the head and skips the characters of a
  match it has reported (\<open>skip\<close>), which is \<open>finditer\<close>'s search for the next match
  from the end of the last one.
\<close>

subsection \<open>\<open>SECTION_PATTERN = ^(#+)\s+(.*)$\<close>, multi-line\<close>

text \<open>
  At a line start: one or more \<open>#\<close>, one or more whitespace characters (greedy, line
  breaks included), then the rest of that line. The result is the length of group 1,
  group 2 and the length of the match.
\<close>

definition section_match_at :: "string \<Rightarrow> (nat \<times> string \<times> nat) option" where
  "section_match_at s =
     (let hashes = takeWhile (\<lambda>c. c = CHR ''#'') s;
          r1 = dropWhile (\<lambda>c. c = CHR ''#'') s;
          ws = takeWhile is_space r1;
          r2 = dropWhile is_space r1;
          line = takeWhile (\<lambda>c. c \<noteq> NL) r2
      in if hashes = [] \<or> ws = [] then None
         else Some (length hashes, line, length hashes + length ws + length line))"

text \<open>The matches as (start, heading level, group 2); \<open>bol\<close> says the head follows a line break.\<close>

fun section_scan :: "nat \<Rightarrow> bool \<Rightarrow> nat \<Rightarrow> string \<Rightarrow> (nat \<times> nat \<times> string) list" where
  "section_scan pos bol skip [] = []"
| "section_scan pos bol skip (c # cs) =
     (if 0 < skip then section_scan (pos + 1) (c = NL) (skip - 1) cs
      else if bol then
        (case section_match_at (c # cs) of
           Some (lvl, g2, n) \<Rightarrow> (pos, lvl, g2) # section_scan (pos + 1) (c = NL) (n - 1) cs
         | None \<Rightarrow> section_scan (pos + 1) (c = NL) 0 cs)
      else section_scan (pos + 1) (c = NL) 0 cs)"

definition section_matches :: "string \<Rightarrow> (nat \<times> nat \<times> string) list" where
  "section_matches text = section_scan 0 True 0 text"

subsection \<open>\<open>CODE_BLOCK_PATTERN\<close>: a fence, lazily up to the next fence\<close>

definition fence :: string where
  "fence = [CHR 0x60, CHR 0x60, CHR 0x60]"

fun code_scan :: "nat \<Rightarrow> nat \<Rightarrow> string \<Rightarrow> (nat \<times> nat) list" where
  "code_scan pos skip [] = []"
| "code_scan pos skip (c # cs) =
     (if 0 < skip then code_scan (pos + 1) (skip - 1) cs
      else if startswith (c # cs) fence then
        (case find_sub fence (pos + 3) (drop 3 (c # cs)) of
           Some q \<Rightarrow> (pos, q + 3) # code_scan (pos + 1) (q + 3 - pos - 1) cs
         | None \<Rightarrow> code_scan (pos + 1) 0 cs)
      else code_scan (pos + 1) 0 cs)"

definition code_ranges_of :: "string \<Rightarrow> (nat \<times> nat) list" where
  "code_ranges_of text = code_scan 0 0 text"

subsection \<open>\<open>PARAGRAPH_SPLIT = \n\s*\n+\<close> and the blank-line split \<open>(\n\s*\n)\<close>\<close>

text \<open>
  Both patterns match, at a line break, through the last line break of the whitespace run
  that follows it, and fail when that run holds no line break: \<open>\s*\<close> is greedy and
  gives back characters until a line break follows, after which \<open>\n+\<close> cannot extend
  past the run. \<open>blank_sep_at\<close> is the length of the match at the head, if any.
\<close>

definition blank_sep_at :: "string \<Rightarrow> nat option" where
  "blank_sep_at s =
     (case s of
        [] \<Rightarrow> None
      | c # cs \<Rightarrow>
          (let run = takeWhile is_space cs in
           if c = NL \<and> NL \<in> set run
           then Some (1 + (length run - length (takeWhile (\<lambda>x. x \<noteq> NL) (rev run))))
           else None))"

text \<open>
  \<open>re.split\<close> with the capturing pattern: pieces and separators alternate, the first and
  the last element are pieces.
\<close>

fun blank_scan :: "nat \<Rightarrow> string \<Rightarrow> string list" where
  "blank_scan skip [] = [[]]"
| "blank_scan skip (c # cs) =
     (if 0 < skip then blank_scan (skip - 1) cs
      else (case blank_sep_at (c # cs) of
              Some n \<Rightarrow> [] # take n (c # cs) # blank_scan (n - 1) cs
            | None \<Rightarrow> (case blank_scan 0 cs of
                         [] \<Rightarrow> [[c]]
                       | p # ps \<Rightarrow> (c # p) # ps)))"

definition blank_split :: "string \<Rightarrow> string list" where
  "blank_split text = blank_scan 0 text"

fun pieces_of :: "string list \<Rightarrow> string list" where
  "pieces_of [] = []"
| "pieces_of [p] = [p]"
| "pieces_of (p # sep # ps) = p # pieces_of ps"

definition paragraph_split :: "string \<Rightarrow> string list" where
  "paragraph_split text = pieces_of (blank_split text)"

subsection \<open>\<open>LIST_ITEM_PATTERN.match\<close>: optional whitespace, a list marker, whitespace\<close>

definition is_digit :: "char \<Rightarrow> bool" where
  "is_digit c = (c \<in> set ''0123456789'')"

definition list_item_match :: "string \<Rightarrow> bool" where
  "list_item_match s =
     (case dropWhile is_space s of
        [] \<Rightarrow> False
      | c # cs \<Rightarrow>
          if c \<in> set ''-*+'' then (case cs of [] \<Rightarrow> False | d # _ \<Rightarrow> is_space d)
          else if is_digit c then
            (case dropWhile is_digit cs of
               [] \<Rightarrow> False
             | d # ds \<Rightarrow> d = CHR ''.'' \<and> (case ds of [] \<Rightarrow> False | e # _ \<Rightarrow> is_space e))
          else False)"

subsection \<open>The sentence pattern of \<open>_split_into_sentences\<close>\<close>

text \<open>
  One or more of \<open>. ! ?\<close> followed by any whitespace; the other members of the class lie
  beyond code point 255. The scanner gives the end offset of every match.
\<close>

definition is_sentence_end :: "char \<Rightarrow> bool" where
  "is_sentence_end c = (c \<in> set ''.!?'')"

fun sentence_scan :: "nat \<Rightarrow> nat \<Rightarrow> string \<Rightarrow> nat list" where
  "sentence_scan pos skip [] = []"
| "sentence_scan pos skip (c # cs) =
     (if 0 < skip then sentence_scan (pos + 1) (skip - 1) cs
      else if is_sentence_end c then
        (let n = length (takeWhile is_sentence_end (c # cs))
                 + length (takeWhile is_space (dropWhile is_sentence_end (c # cs)))
         in (pos + n) # sentence_scan (pos + 1) (n - 1) cs)
      else sentence_scan (pos + 1) 0 cs)"

fun sentences_from :: "string \<Rightarrow> nat \<Rightarrow> nat list \<Rightarrow> (string \<times> nat \<times> nat) list \<times> nat" where
  "sentences_from text last_end [] = ([], last_end)"
| "sentences_from text last_end (e # es) =
     (let sentence = slice last_end e text;
          (rest, final) = sentences_from text e es
      in (if strip sentence \<noteq> [] then (sentence, last_end, e) # rest else rest, final))"

definition split_into_sentences :: "string \<Rightarrow> (string \<times> nat \<times> nat) list" where
  "split_into_sentences text =
     (let (found, last_end) = sentences_from text 0 (sentence_scan 0 0 text);
          sentences =
            (if last_end < length text \<and> strip (drop last_end text) \<noteq> []
             then found @ [(drop last_end text, last_end, length text)]
             else found)
      in if sentences = [] then [(text, 0, length text)] else sentences)"

section \<open>ChunkingPipeline: semantic blocks\<close>

datatype block_type = Paragraph | ListBlock | Code | Table | Heading

record SemanticBlock =
  block_text :: string
  block_type :: block_type
  start_offset :: nat
  end_offset :: nat

subsection \<open>\<open>_find_table_ranges\<close>\<close>

text \<open>The loop state: the ranges found, \<open>in_table\<close>, \<open>table_start\<close>, \<open>current_pos\<close>.\<close>

definition table_step ::
  "(nat \<times> nat) list \<times> bool \<times> nat \<times> nat \<Rightarrow> string \<Rightarrow> (nat \<times> nat) list \<times> bool \<times> nat \<times> nat" where
  "table_step st line =
     (case st of (ranges, in_table, table_start, current_pos) \<Rightarrow>
        (let line_stripped = strip line;
             is_table_row = (case line_stripped of
                               [] \<Rightarrow> False
                             | c # r \<Rightarrow> c = CHR ''|'' \<and> CHR ''|'' \<in> set r);
             is_separator = (py_contains ''---'' line_stripped \<and> CHR ''|'' \<in> set line_stripped)
         in if is_table_row \<or> (in_table \<and> is_separator)
            then (ranges, True, if in_table then table_start else current_pos,
                  current_pos + length line + 1)
            else (if in_table then ranges @ [(table_start, current_pos)] else ranges,
                  False, table_start, current_pos + length line + 1)))"

definition find_table_ranges :: "string \<Rightarrow> (nat \<times> nat) list" where
  "find_table_ranges text =
     (case foldl table_step ([], False, 0, 0) (split_nl text) of
        (ranges, in_table, table_start, current_pos) \<Rightarrow>
          if in_table then ranges @ [(table_start, length text)] else ranges)"

subsection \<open>\<open>_parse_paragraphs_and_lists\<close>\<close>

function para_loop :: "string \<Rightarrow> nat \<Rightarrow> string list \<Rightarrow> nat \<Rightarrow> SemanticBlock list" where
  "para_loop text base_offset [] current_pos = []"
| "para_loop text base_offset (part # rest) current_pos =
     (if strip part = [] then para_loop text base_offset rest (current_pos + length part + 2)
      else
        (let part_start = (case py_find part current_pos text of
                             Some k \<Rightarrow> k
                           | None \<Rightarrow> current_pos)
         in if list_item_match part then
              (let list_parts = part # takeWhile (\<lambda>q. list_item_match (strip q)) rest;
                   list_text = join_nn list_parts;
                   list_end = part_start + length list_text
               in \<lparr> block_text = list_text, block_type = ListBlock,
                    start_offset = base_offset + part_start,
                    end_offset = base_offset + list_end \<rparr>
                  # para_loop text base_offset
                      (dropWhile (\<lambda>q. list_item_match (strip q)) rest) list_end)
            else
              \<lparr> block_text = part, block_type = Paragraph,
                start_offset = base_offset + part_start,
                end_offset = base_offset + part_start + length part \<rparr>
              # para_loop text base_offset rest (part_start + length part)))"
  by pat_completeness auto
termination
  by (relation "measure (\<lambda>(text, base_offset, parts, current_pos). length parts)")
     (auto simp: length_dropWhile_le less_Suc_eq_le)

definition parse_paragraphs_and_lists :: "string \<Rightarrow> nat \<Rightarrow> SemanticBlock list" where
  "parse_paragraphs_and_lists text base_offset =
     (if strip text = [] then [] else para_loop text base_offset (paragraph_split text) 0)"

subsection \<open>\<open>_parse_semantic_blocks\<close>\<close>

text \<open>
  The first inner loop of the source: the first protected range that holds the position
  or lies ahead of it.
\<close>

datatype range_hit = Inside nat nat | Ahead nat nat | NoHit

fun probe :: "(nat \<times> nat) list \<Rightarrow> nat \<Rightarrow> range_hit" where
  "probe [] current_pos = NoHit"
| "probe ((start, end') # rs) current_pos =
     (if start \<le> current_pos \<and> current_pos < end' then Inside start end'
      else if current_pos < start then Ahead start end'
      else probe rs current_pos)"

text \<open>The second inner loop: the start of the first range ahead, or the end of the text.\<close>

fun next_protected :: "(nat \<times> nat) list \<Rightarrow> nat \<Rightarrow> nat \<Rightarrow> nat" where
  "next_protected [] current_pos text_len = text_len"
| "next_protected ((start, end') # rs) current_pos text_len =
     (if current_pos < start then start else next_protected rs current_pos text_len)"

lemma probe_Inside: "probe rs current_pos = Inside s e \<Longrightarrow> current_pos < e"
  by (induction rs current_pos rule: probe.induct) (auto split: if_splits)

lemma probe_Ahead: "probe rs current_pos = Ahead s e \<Longrightarrow> current_pos < s"
  by (induction rs current_pos rule: probe.induct) (auto split: if_splits)

lemma next_protected_gt: "current_pos < n \<Longrightarrow> current_pos < next_protected rs current_pos n"
  by (induction rs current_pos n rule: next_protected.induct) auto

function blocks_loop ::
  "string \<Rightarrow> (nat \<times> nat) list \<Rightarrow> (nat \<times> nat) list \<Rightarrow> nat \<Rightarrow> SemanticBlock list" where
  "blocks_loop text code_ranges protected_ranges current_pos =
     (if current_pos < length text then
        (case probe protected_ranges current_pos of
           Inside start end' \<Rightarrow>
             \<lparr> block_text = slice start end' text,
               block_type = (if (start, end') \<in> set code_ranges then Code else Table),
               start_offset = start, end_offset = end' \<rparr>
             # blocks_loop text code_ranges protected_ranges end'
         | Ahead start end' \<Rightarrow>
             parse_paragraphs_and_lists (slice current_pos start text) current_pos
             @ blocks_loop text code_ranges protected_ranges start
         | NoHit \<Rightarrow>
             (let np = next_protected protected_ranges current_pos (length text)
              in parse_paragraphs_and_lists (slice current_pos np text) current_pos
                 @ blocks_loop text code_ranges protected_ranges np))
      else [])"
  by pat_completeness auto
termination
  by (relation "measure (\<lambda>(text, code_ranges, protected_ranges, current_pos).
                           length text - current_pos)")
     (auto dest: probe_Inside probe_Ahead simp: next_protected_gt diff_less_mono2)

declare blocks_loop.simps [simp del]

definition parse_semantic_blocks :: "string \<Rightarrow> SemanticBlock list" where
  "parse_semantic_blocks text =
     (let code_ranges = code_ranges_of text;
          table_ranges = find_table_ranges text;
          protected_ranges = sort_key fst (code_ranges @ table_ranges)
      in blocks_loop text code_ranges protected_ranges 0)"

section \<open>ChunkingPipeline: splitting and accumulating blocks\<close>

text \<open>A chunk of a section: its text and its start and end offsets in the section body.\<close>

type_synonym chunk = "string \<times> int \<times> int"

subsection \<open>\<open>_split_at_sentences\<close>\<close>

text \<open>The loop state of both splitters: \<open>chunks\<close>, \<open>current_chunk\<close>, \<open>current_start\<close>.\<close>

definition sentence_step ::
  "int \<Rightarrow> int \<Rightarrow> chunk list \<times> string \<times> nat \<Rightarrow> string \<times> nat \<times> nat
   \<Rightarrow> chunk list \<times> string \<times> nat" where
  "sentence_step max_chars min_chars st sent =
     (case st of (chunks, current_chunk, current_start) \<Rightarrow>
      case sent of (sentence, sent_start, sent_end) \<Rightarrow>
        if strip sentence = [] then st
        else if current_chunk \<noteq> [] \<and> max_chars < len current_chunk + len sentence then
          (if min_chars \<le> len (strip current_chunk)
           then (chunks @ [(strip current_chunk, int current_start,
                            int current_start + len (rstrip current_chunk))],
                 sentence, sent_start)
           else (chunks, current_chunk @ sentence, current_start))
        else (chunks, current_chunk @ sentence,
              if current_chunk = [] then sent_start else current_start))"

definition split_at_sentences :: "string \<Rightarrow> int \<Rightarrow> int \<Rightarrow> chunk list" where
  "split_at_sentences text max_chars min_chars =
     (case foldl (sentence_step max_chars min_chars) ([], [], 0) (split_into_sentences text) of
        (chunks, current_chunk, current_start) \<Rightarrow>
          (let chunks' =
                 (if strip current_chunk \<noteq> []
                  then chunks @ [(strip current_chunk, int current_start,
                                  int current_start + len (rstrip current_chunk))]
                  else chunks)
           in if chunks' = [] then [(text, 0, len text)] else chunks'))"

subsection \<open>\<open>_split_at_blank_lines\<close>\<close>

text \<open>The state carries \<open>current_pos\<close> as a fourth component.\<close>

definition blank_step ::
  "int \<Rightarrow> int \<Rightarrow> chunk list \<times> string \<times> nat \<times> nat \<Rightarrow> string
   \<Rightarrow> chunk list \<times> string \<times> nat \<times> nat" where
  "blank_step max_chars min_chars st part =
     (case st of (chunks, current_chunk, current_start, current_pos) \<Rightarrow>
        if current_chunk \<noteq> [] \<and> max_chars < len current_chunk + len part then
          (if min_chars \<le> len (strip current_chunk)
           then (chunks @ [(current_chunk, int current_start,
                            int current_start + len current_chunk)],
                 part, current_pos, current_pos + length part)
           else (chunks, current_chunk @ part, current_start, current_pos + length part))
        else (chunks, current_chunk @ part,
              if current_chunk = [] then current_pos else current_start,
              current_pos + length part))"

definition split_at_blank_lines :: "string \<Rightarrow> int \<Rightarrow> int \<Rightarrow> chunk list" where
  "split_at_blank_lines text max_chars min_chars =
     (case foldl (blank_step max_chars min_chars) ([], [], 0, 0) (blank_split text) of
        (chunks, current_chunk, current_start, current_pos) \<Rightarrow>
          (let chunks' =
                 (if strip current_chunk \<noteq> []
                  then chunks @ [(current_chunk, int current_start,
                                  int current_start + len current_chunk)]
                  else chunks)
           in if chunks' = [] then [(text, 0, len text)] else chunks'))"

definition split_large_block :: "SemanticBlock \<Rightarrow> int \<Rightarrow> int \<Rightarrow> chunk list" where
  "split_large_block block max_chars min_chars =
     (if block_type block = Code \<or> block_type block = Table
      then split_at_blank_lines (block_text block) max_chars min_chars
      else split_at_sentences (block_text block) max_chars min_chars)"

subsection \<open>\<open>_get_overlap_text\<close>\<close>

definition get_overlap_text :: "string \<Rightarrow> int \<Rightarrow> string" where
  "get_overlap_text text overlap_chars =
     (if overlap_chars \<le> 0 \<or> len text \<le> overlap_chars then []
      else
        (let overlap_region = drop (length text - nat overlap_chars) text;
             sentences = split_into_sentences overlap_region
         in if 1 < length sentences then strip (concat (map fst (tl sentences)))
            else
              (case py_find '' '' 0 overlap_region of
                 Some space_pos \<Rightarrow>
                   if 0 < space_pos \<and> space_pos < length overlap_region div 2
                   then strip (drop (space_pos + 1) overlap_region)
                   else strip overlap_region
               | None \<Rightarrow> strip overlap_region)))"

subsection \<open>\<open>_semantic_chunk\<close>\<close>

definition shift_chunk :: "nat \<Rightarrow> chunk \<Rightarrow> chunk" where
  "shift_chunk off c = (case c of (sub_text, sub_rel_start, sub_rel_end) \<Rightarrow>
                          (sub_text, int off + sub_rel_start, int off + sub_rel_end))"

definition chunk_step ::
  "int \<Rightarrow> int \<Rightarrow> int \<Rightarrow> chunk list \<times> string \<times> int \<Rightarrow> SemanticBlock
   \<Rightarrow> chunk list \<times> string \<times> int" where
  "chunk_step max_chars min_chars overlap_chars st block =
     (case st of (chunks, current_chunk, current_start) \<Rightarrow>
        if max_chars < len (block_text block) then
          (let flushed = (strip current_chunk \<noteq> []);
               chunks1 = (if flushed
                          then chunks @ [(current_chunk, current_start,
                                          current_start + len current_chunk)]
                          else chunks);
               chunks2 = chunks1 @ map (shift_chunk (start_offset block))
                                       (split_large_block block max_chars min_chars)
           in (chunks2, if flushed then [] else current_chunk,
               if chunks2 = [] then current_start else snd (snd (last chunks2))))
        else if current_chunk \<noteq> []
                \<and> max_chars < len current_chunk + len (block_text block) + 2 then
          (if min_chars \<le> len (strip current_chunk) then
             (let overlap_text = get_overlap_text current_chunk overlap_chars
              in (chunks @ [(current_chunk, current_start, current_start + len current_chunk)],
                  if overlap_text \<noteq> [] then overlap_text @ [NL, NL] @ block_text block
                  else block_text block,
                  if overlap_text \<noteq> [] then int (start_offset block) - len overlap_text
                  else int (start_offset block)))
           else (chunks, current_chunk @ [NL, NL] @ block_text block, current_start))
        else if current_chunk \<noteq> []
          then (chunks, current_chunk @ [NL, NL] @ block_text block, current_start)
          else (chunks, block_text block, int (start_offset block)))"

definition semantic_chunk :: "string \<Rightarrow> int \<Rightarrow> int \<Rightarrow> int \<Rightarrow> chunk list" where
  "semantic_chunk text max_chars min_chars overlap_chars =
     (if text = [] then []
      else
        (let blocks = parse_semantic_blocks text
         in if blocks = [] then [(text, 0, len text)]
            else
              (case foldl (chunk_step max_chars min_chars overlap_chars) ([], [], 0) blocks of
                 (chunks, current_chunk, current_start) \<Rightarrow>
                   (let chunks' =
                          (if strip current_chunk \<noteq> []
                           then chunks @ [(current_chunk, current_start,
                                           current_start + len current_chunk)]
                           else chunks)
                    in if chunks' = [] then [(text, 0, len text)] else chunks'))))"

section \<open>ChunkingPipeline: sections\<close>

text \<open>A section: its path label, its body and the offset of the body in the text.\<close>

type_synonym text_section = "string option \<times> string \<times> nat"

fun section_bodies :: "string \<Rightarrow> (nat \<times> nat \<times> string) list \<Rightarrow> text_section list" where
  "section_bodies text [] = []"
| "section_bodies text ((start, heading_level, heading_text) # ms) =
     (let end' = (case ms of [] \<Rightarrow> length text | (next_start, _, _) # _ \<Rightarrow> next_start)
      in (Some (show_nat heading_level @ '':'' @ strip heading_text),
          slice start end' text, start)
         # section_bodies text ms)"

definition raw_sections :: "string \<Rightarrow> (nat \<times> nat \<times> string) list \<Rightarrow> text_section list" where
  "raw_sections text matches =
     (let first_match_start = (case matches of [] \<Rightarrow> 0 | (start, _, _) # _ \<Rightarrow> start);
          preamble0 = (if 0 < first_match_start then take first_match_start text else []);
          substantial = (0 < first_match_start \<and> strip preamble0 \<noteq> []
                         \<and> 300 < length preamble0);
          preamble = (if substantial then [] else preamble0)
      in (if substantial then [(None, preamble0, 0)] else [])
         @ (case section_bodies text matches of
              [] \<Rightarrow> []
            | (marker, body, start) # rest \<Rightarrow>
                (if preamble \<noteq> [] then (marker, preamble @ body, 0)
                 else (marker, body, start)) # rest))"

text \<open>
  The merge loop's state: \<open>merged_sections\<close>, \<open>pending_body\<close>, \<open>pending_path\<close>,
  \<open>pending_start\<close>.
\<close>

definition section_step ::
  "int \<Rightarrow> text_section list \<times> string \<times> string option \<times> nat \<Rightarrow> text_section
   \<Rightarrow> text_section list \<times> string \<times> string option \<times> nat" where
  "section_step min_section_chars st sec =
     (case st of (merged_sections, pending_body, pending_path, pending_start) \<Rightarrow>
      case sec of (section_path, section_body, section_start) \<Rightarrow>
        if pending_body \<noteq> [] then
          (let combined_body = pending_body @ [NL] @ section_body
           in if min_section_chars \<le> len (strip combined_body)
              then (merged_sections @ [(pending_path, combined_body, pending_start)],
                    [], None, pending_start)
              else (merged_sections, combined_body, pending_path, pending_start))
        else if len (strip section_body) < min_section_chars
          then (merged_sections, section_body, section_path, section_start)
          else (merged_sections @ [(section_path, section_body, section_start)],
                pending_body, pending_path, pending_start))"

definition split_sections :: "ChunkingPipeline \<Rightarrow> string \<Rightarrow> text_section list" where
  "split_sections p text =
     (if text = [] then [(None, [], 0)]
      else
        (let matches = section_matches text
         in if matches = [] then [(None, text, 0)]
            else
              (case foldl (section_step (min_chunk_tokens p * char_ratio p)) ([], [], None, 0)
                          (raw_sections text matches) of
                 (merged_sections, pending_body, pending_path, pending_start) \<Rightarrow>
                   (let merged' =
                          (if pending_body \<noteq> [] then
                             (if merged_sections \<noteq> [] then
                                (case last merged_sections of
                                   (last_path, last_body, last_start) \<Rightarrow>
                                     butlast merged_sections
                                     @ [(last_path, last_body @ [NL] @ pending_body, last_start)])
                              else [(pending_path, pending_body, pending_start)])
                           else merged_sections)
                    in if merged' = [] then [(None, text, 0)] else merged'))))"

section \<open>ChunkingPipeline: payloads\<close>

text \<open>
  The metadata dictionary of a payload holds the keys below; the page keys are present
  only when a page mapping gave pages. The key \<open>list_density\<close>, a float computed from the
  chunk text alone, is left out. A \<open>datetime\<close> is a number of microseconds.
\<close>

type_synonym datetime = int

type_synonym page_mapping = "(int \<times> int \<times> int) list"

record ChunkMetadata =
  md_section_path :: "string option"
  start_char :: int
  end_char :: int
  page_numbers :: "int list option"
  page_start :: "int option"
  page_end :: "int option"

record ChunkPayload =
  chunk_id :: string
  file_id :: string
  ordinal :: nat
  chunk_text :: string
  snippet :: string
  token_count :: int
  char_count :: int
  section_path :: "string option"
  metadata :: ChunkMetadata
  created_at :: datetime

definition heuristic_tokens :: "ChunkingPipeline \<Rightarrow> string \<Rightarrow> int" where
  "heuristic_tokens p text = max (len text div char_ratio p) 1"

definition token_count_of :: "ChunkingPipeline \<Rightarrow> string \<Rightarrow> int" where
  "token_count_of p text =
     (case tokenizer p of
        None \<Rightarrow> heuristic_tokens p text
      | Some encode \<Rightarrow> (case encode text of
                         Some n \<Rightarrow> n
                       | None \<Rightarrow> heuristic_tokens p text))"

text \<open>
  \<open>_chunk_id\<close>: the digest of \<open>file_id:ordinal:start_offset\<close>. The hash of the
  \<open>xxhash\<close> library is a parameter, \<open>hexdigest\<close>.
\<close>

definition chunk_id_of :: "(string \<Rightarrow> string) \<Rightarrow> string \<Rightarrow> nat \<Rightarrow> int \<Rightarrow> string" where
  "chunk_id_of hexdigest fid ord start =
     hexdigest (fid @ '':'' @ show_nat ord @ '':'' @ show_int start)"

definition get_pages_for_range :: "int \<Rightarrow> int \<Rightarrow> page_mapping \<Rightarrow> int list" where
  "get_pages_for_range start end' pm =
     sort (remdups (map (\<lambda>(page_start, page_end, page_num). page_num)
                        (filter (\<lambda>(page_start, page_end, page_num).
                                    start < page_end \<and> page_start < end') pm)))"

text \<open>The page keys are written only for a non-empty mapping that yields pages.\<close>

definition with_pages :: "page_mapping option \<Rightarrow> ChunkMetadata \<Rightarrow> ChunkMetadata" where
  "with_pages page_mapping md =
     (case page_mapping of
        None \<Rightarrow> md
      | Some pm \<Rightarrow>
          if pm = [] then md
          else (let pages = get_pages_for_range (start_char md) (end_char md) pm
                in if pages = [] then md
                   else md\<lparr> page_numbers := Some pages,
                            page_start := Some (hd pages),
                            page_end := Some (last pages) \<rparr>))"

subsection \<open>\<open>_merge_small_chunks\<close>\<close>

definition or_empty :: "string option \<Rightarrow> string" where
  "or_empty s = (case s of None \<Rightarrow> [] | Some t \<Rightarrow> t)"

definition merge_forward ::
  "ChunkingPipeline \<Rightarrow> page_mapping option \<Rightarrow> ChunkPayload \<Rightarrow> ChunkPayload \<Rightarrow> ChunkPayload" where
  "merge_forward p page_mapping pending payload =
     (let combined_text = chunk_text pending @ [NL, NL] @ chunk_text payload;
          pending_section = or_empty (section_path pending);
          current_section = or_empty (section_path payload);
          combined_section =
            (if pending_section \<noteq> [] \<and> current_section \<noteq> []
                \<and> pending_section \<noteq> current_section
             then pending_section @ '' | '' @ current_section
             else if pending_section \<noteq> [] then pending_section else current_section)
      in \<lparr> chunk_id = chunk_id pending,
           file_id = file_id pending,
           ordinal = ordinal pending,
           chunk_text = combined_text,
           snippet = take 400 combined_text,
           token_count = token_count_of p combined_text,
           char_count = len combined_text,
           section_path = Some combined_section,
           metadata = with_pages page_mapping
                        ((metadata pending)\<lparr> end_char := end_char (metadata payload) \<rparr>),
           created_at = created_at pending \<rparr>)"

definition merge_backward ::
  "ChunkingPipeline \<Rightarrow> page_mapping option \<Rightarrow> ChunkPayload \<Rightarrow> ChunkPayload \<Rightarrow> ChunkPayload" where
  "merge_backward p page_mapping last' pending =
     (let combined_text = chunk_text last' @ [NL, NL] @ chunk_text pending
      in \<lparr> chunk_id = chunk_id last',
           file_id = file_id last',
           ordinal = ordinal last',
           chunk_text = combined_text,
           snippet = take 400 combined_text,
           token_count = token_count_of p combined_text,
           char_count = len combined_text,
           section_path = section_path last',
           metadata = with_pages page_mapping
                        ((metadata last')\<lparr> end_char := end_char (metadata pending) \<rparr>),
           created_at = created_at last' \<rparr>)"

text \<open>
  The loop state is \<open>merged\<close> and \<open>pending\<close>. The relaxed ceiling
  \<open>combined_chars <= max_chars * 1.5\<close> is compared as \<open>2 * combined_chars \<le> 3 * max_chars\<close>.
\<close>

definition merge_step ::
  "ChunkingPipeline \<Rightarrow> int \<Rightarrow> int \<Rightarrow> page_mapping option
   \<Rightarrow> ChunkPayload list \<times> ChunkPayload option \<Rightarrow> ChunkPayload
   \<Rightarrow> ChunkPayload list \<times> ChunkPayload option" where
  "merge_step p min_chars max_chars page_mapping st payload =
     (case st of (merged, pending_opt) \<Rightarrow>
        (case pending_opt of
           None \<Rightarrow>
             if char_count payload < min_chars then (merged, Some payload)
             else (merged @ [payload], None)
         | Some pending \<Rightarrow>
             (let combined_chars = char_count pending + char_count payload + 2;
                  should_merge = (combined_chars \<le> max_chars
                                  \<or> (char_count payload < min_chars
                                      \<and> 2 * combined_chars \<le> 3 * max_chars))
              in if should_merge then
                   (let merged_payload = merge_forward p page_mapping pending payload
                    in if char_count merged_payload < min_chars
                       then (merged, Some merged_payload)
                       else (merged @ [merged_payload], None))
                 else if char_count payload < min_chars
                   then (merged @ [pending], Some payload)
                   else (merged @ [pending, payload], None))))"

fun renumber :: "nat \<Rightarrow> ChunkPayload list \<Rightarrow> ChunkPayload list" where
  "renumber i [] = []"
| "renumber i (payload # rest) = payload\<lparr> ordinal := i \<rparr> # renumber (i + 1) rest"

definition merge_small_chunks ::
  "ChunkingPipeline \<Rightarrow> ChunkPayload list \<Rightarrow> int \<Rightarrow> int \<Rightarrow> page_mapping option
   \<Rightarrow> ChunkPayload list" where
  "merge_small_chunks p payloads min_chars max_chars page_mapping =
     (if length payloads \<le> 1 then payloads
      else
        (case foldl (merge_step p min_chars max_chars page_mapping) ([], None) payloads of
           (merged, pending_opt) \<Rightarrow>
             renumber 0
               (case pending_opt of
                  None \<Rightarrow> merged
                | Some pending \<Rightarrow>
                    if merged \<noteq> []
                       \<and> char_count (last merged) + char_count pending + 2 \<le> max_chars
                    then butlast merged @ [merge_backward p page_mapping (last merged) pending]
                    else merged @ [pending])))"

subsection \<open>\<open>build\<close>\<close>

text \<open>
  \<open>build\<close> takes two things from outside: the reading of the clock, \<open>now\<close>, and the
  hash behind \<open>_chunk_id\<close>, \<open>hexdigest\<close>. The inner loop over the chunks of one
  section has as state the payload list and the next ordinal; \<open>n_chunks\<close> is the number
  of chunks of the section.
\<close>

definition payload_step ::
  "ChunkingPipeline \<Rightarrow> (string \<Rightarrow> string) \<Rightarrow> datetime \<Rightarrow> string \<Rightarrow> page_mapping option
   \<Rightarrow> string option \<Rightarrow> nat \<Rightarrow> nat \<Rightarrow> ChunkPayload list \<times> nat \<Rightarrow> chunk
   \<Rightarrow> ChunkPayload list \<times> nat" where
  "payload_step p hexdigest now fid page_mapping sec_path section_start_offset n_chunks st ch =
     (case st of (payloads, ord) \<Rightarrow>
      case ch of (text, rel_start, rel_end) \<Rightarrow>
        (let clean_text = strip text
         in if clean_text = [] then st
            else if token_count_of p clean_text < min_chunk_tokens p \<and> 1 < n_chunks then st
            else
              (let abs_start = int section_start_offset + rel_start;
                   abs_end = int section_start_offset + rel_end
               in (payloads
                   @ [\<lparr> chunk_id = chunk_id_of hexdigest fid ord abs_start,
                        file_id = fid,
                        ordinal = ord,
                        chunk_text = clean_text,
                        snippet = take 400 clean_text,
                        token_count = token_count_of p clean_text,
                        char_count = len clean_text,
                        section_path = sec_path,
                        metadata = with_pages page_mapping
                                     \<lparr> md_section_path = sec_path,
                                       start_char = abs_start,
                                       end_char = abs_end,
                                       page_numbers = None,
                                       page_start = None,
                                       page_end = None \<rparr>,
                        created_at = now \<rparr>],
                   ord + 1))))"

definition build_section_step ::
  "ChunkingPipeline \<Rightarrow> (string \<Rightarrow> string) \<Rightarrow> datetime \<Rightarrow> string \<Rightarrow> page_mapping option
   \<Rightarrow> int \<Rightarrow> int \<Rightarrow> int \<Rightarrow> ChunkPayload list \<times> nat \<Rightarrow> text_section
   \<Rightarrow> ChunkPayload list \<times> nat" where
  "build_section_step p hexdigest now fid page_mapping max_chars min_chars overlap_chars st sec =
     (case sec of (sec_path, section_body, section_start_offset) \<Rightarrow>
        if strip section_body = [] then st
        else
          (let chunks = semantic_chunk section_body max_chars min_chars overlap_chars
           in foldl (payload_step p hexdigest now fid page_mapping sec_path
                       section_start_offset (length chunks)) st chunks))"

text \<open>The payloads before the merge pass.\<close>

definition build_payloads ::
  "ChunkingPipeline \<Rightarrow> (string \<Rightarrow> string) \<Rightarrow> datetime \<Rightarrow> string \<Rightarrow> string
   \<Rightarrow> page_mapping option \<Rightarrow> int option \<Rightarrow> int option \<Rightarrow> ChunkPayload list" where
  "build_payloads p hexdigest now fid text page_mapping chunk_tokens_ov overlap_tokens_ov =
     fst (foldl (build_section_step p hexdigest now fid page_mapping
                   (max_chunk_chars p chunk_tokens_ov) (min_chunk_chars p)
                   (overlap_chars_of p overlap_tokens_ov))
                ([], 0) (split_sections p text))"

definition build ::
  "ChunkingPipeline \<Rightarrow> (string \<Rightarrow> string) \<Rightarrow> datetime \<Rightarrow> string \<Rightarrow> string
   \<Rightarrow> page_mapping option \<Rightarrow> int option \<Rightarrow> int option \<Rightarrow> ChunkPayload list" where
  "build p hexdigest now fid text page_mapping chunk_tokens_ov overlap_tokens_ov =
     (if text = [] \<or> strip text = [] then []
      else merge_small_chunks p
             (build_payloads p hexdigest now fid text page_mapping
                chunk_tokens_ov overlap_tokens_ov)
             (min_chunk_chars p) (max_chunk_chars p chunk_tokens_ov) page_mapping)"

section \<open>Indexer: the store stage\<close>

text \<open>
  The indexer stores and copies embedding vectors and never computes with their
  components: a float is given by its 64-bit pattern. A \<open>ChunkSnapshot\<close>
  has the fields of a \<open>ChunkPayload\<close>. Of a file record's metadata dictionary the two
  keys the store stage reads and writes are fields (\<open>None\<close>: the key is absent); the
  remaining keys are kept as pairs.
\<close>

datatype py_float = Float64 nat

type_synonym vector = "py_float list"

type_synonym ChunkSnapshot = ChunkPayload

datatype index_status = Pending | Indexed | Error

record FileMetadata =
  vector_chunks :: "string list option"
  chunk_strategy :: "string option"
  other_keys :: "(string \<times> string) list"

record FileRecord =
  file_record_id :: string
  folder_id :: string
  path :: string
  name :: string
  file_size :: int
  modified_at :: datetime
  kind :: string
  checksum_sha256 :: "string option"
  summary :: "string option"
  preview_image :: "string option"
  file_metadata :: FileMetadata
  embedding_vector :: "vector option"
  embedding_determined_at :: "datetime option"
  index_status :: index_status
  error_reason :: "string option"
  error_at :: "datetime option"

record IngestArtifact =
  art_record :: FileRecord
  art_text :: string
  art_chunks :: "ChunkSnapshot list"
  art_page_mapping :: page_mapping

text \<open>
  A vector document: of its metadata dictionary, all copies of fields of the record and
  the chunk, the chunk is kept whole together with the record's id, path and summary.
\<close>

record VectorDocument =
  doc_id :: string
  doc_vector :: vector
  doc_file_id :: string
  doc_path :: string
  doc_summary :: "string option"
  doc_chunk :: ChunkSnapshot

record Settings =
  reuse_embeddings :: bool
  embed_batch_size :: int
  embed_max_chars :: int

text \<open>
  The collaborators. \<open>encode\<close> is the embedding client (\<open>Inl\<close>: it raised, with the
  message); the flags of the vector store say whether \<open>upsert\<close> and \<open>flush\<close> return or
  raise. A \<open>delete\<close> that raises is caught and logged, with no further effect.
\<close>

record Services =
  encode :: "string list \<Rightarrow> string + vector list"
  upsert_ok :: "VectorDocument list \<Rightarrow> bool"
  flush_ok :: bool

text \<open>
  What the stage can change: the file table and the chunk table of the storage, and the
  calls it issues, logged in order (every call, also one that raises); \<open>stage_calls\<close>
  logs the details passed to \<open>_set_active_stage\<close>.
\<close>

record World =
  files :: "string \<Rightarrow> FileRecord option"
  chunk_rows :: "string \<Rightarrow> ChunkSnapshot list"
  encode_calls :: "string list list"
  delete_calls :: "string list list"
  upsert_calls :: "VectorDocument list list"
  flush_calls :: nat
  stage_calls :: "string list"

text \<open>\<open>s[:n]\<close> for any integer \<open>n\<close>.\<close>

definition py_prefix :: "int \<Rightarrow> string \<Rightarrow> string" where
  "py_prefix n s = (if 0 \<le> n then take (nat n) s else take (length s - nat (- n)) s)"

text \<open>The slices \<open>xs[start:start + n]\<close> for \<open>start\<close> in \<open>range(0, len(xs), n)\<close>.\<close>

function batches_of :: "nat \<Rightarrow> 'a list \<Rightarrow> 'a list list" where
  "batches_of n xs =
     (if n = 0 \<or> xs = [] then [] else take n xs # batches_of n (drop n xs))"
  by pat_completeness auto
termination
  by (relation "measure (\<lambda>(n, xs). length xs)") auto

declare batches_of.simps [simp del]

definition mismatch_message :: "nat \<Rightarrow> nat \<Rightarrow> string" where
  "mismatch_message got want =
     ''Embedding service returned '' @ show_nat got @ '' vectors for batch of ''
     @ show_nat want @ '' chunks''"

text \<open>
  The loop of \<open>_embed_chunks\<close> over the batches, \<open>batch_index\<close> counting from 1. It
  ends at the first batch for which the client raises or returns a wrong count.
\<close>

fun embed_loop ::
  "Services \<Rightarrow> Settings \<Rightarrow> nat \<Rightarrow> nat \<Rightarrow> nat \<Rightarrow> string list list \<Rightarrow> vector list \<Rightarrow> World
   \<Rightarrow> (string + vector list) \<times> World" where
  "embed_loop sv cfg total_batches n_payloads batch_index [] vectors w = (Inr vectors, w)"
| "embed_loop sv cfg total_batches n_payloads batch_index (batch # rest) vectors w =
     (let texts = map (py_prefix (embed_max_chars cfg)) batch;
          w1 = w\<lparr> stage_calls := stage_calls w
                      @ [''Embedding batch '' @ show_nat batch_index @ ''/''
                         @ show_nat (max total_batches 1)],
                    encode_calls := encode_calls w @ [texts] \<rparr>
      in case encode sv texts of
           Inl raised \<Rightarrow> (Inl raised, w1)
         | Inr response_vectors \<Rightarrow>
             if length response_vectors \<noteq> length batch
             then (Inl (mismatch_message (length response_vectors) (length batch)), w1)
             else
               (let vectors' = vectors @ response_vectors;
                    w2 = w1\<lparr> stage_calls := stage_calls w1
                                @ [''Embedded '' @ show_nat (length vectors') @ ''/''
                                   @ show_nat n_payloads @ '' chunks''] \<rparr>
                in embed_loop sv cfg total_batches n_payloads (batch_index + 1) rest
                     vectors' w2))"

definition embed_texts :: "ChunkSnapshot list \<Rightarrow> string list" where
  "embed_texts chunks = filter (\<lambda>t. t \<noteq> []) (map (\<lambda>c. strip (chunk_text c)) chunks)"

definition embed_batches :: "Settings \<Rightarrow> ChunkSnapshot list \<Rightarrow> string list list" where
  "embed_batches cfg chunks = batches_of (nat (max (embed_batch_size cfg) 1)) (embed_texts chunks)"

definition embed_chunks ::
  "Services \<Rightarrow> Settings \<Rightarrow> ChunkSnapshot list \<Rightarrow> World \<Rightarrow> (string + vector list) \<times> World" where
  "embed_chunks sv cfg chunks w =
     (if embed_texts chunks = [] then (Inr [], w)
      else embed_loop sv cfg (length (embed_batches cfg chunks)) (length (embed_texts chunks))
             1 (embed_batches cfg chunks) [] w)"

subsection \<open>\<open>_store_artifact\<close>\<close>

definition truthy :: "string list option \<Rightarrow> bool" where
  "truthy ids = (case ids of None \<Rightarrow> False | Some l \<Rightarrow> l \<noteq> [])"

definition previous_chunk_ids :: "FileRecord option \<Rightarrow> string list option" where
  "previous_chunk_ids existing =
     (case existing of None \<Rightarrow> Some [] | Some e \<Rightarrow> vector_chunks (file_metadata e))"

definition reuse_vectors :: "Settings \<Rightarrow> FileRecord option \<Rightarrow> FileRecord \<Rightarrow> bool \<Rightarrow> bool" where
  "reuse_vectors cfg existing record refresh_embeddings =
     (case existing of
        None \<Rightarrow> False
      | Some e \<Rightarrow>
          checksum_sha256 e = checksum_sha256 record
          \<and> embedding_vector e \<noteq> None
          \<and> truthy (previous_chunk_ids existing)
          \<and> reuse_embeddings cfg
          \<and> \<not> refresh_embeddings
          \<and> chunk_strategy (file_metadata e) = chunk_strategy (file_metadata record))"

definition upsert_file :: "FileRecord \<Rightarrow> World \<Rightarrow> World" where
  "upsert_file record w = w\<lparr> files := (files w)(file_record_id record \<mapsto> record) \<rparr>"

definition replace_chunks :: "string \<Rightarrow> ChunkSnapshot list \<Rightarrow> World \<Rightarrow> World" where
  "replace_chunks fid chunks w = w\<lparr> chunk_rows := (chunk_rows w)(fid := chunks) \<rparr>"

text \<open>The record the reuse fast path writes.\<close>

definition reused_record :: "FileRecord \<Rightarrow> FileRecord \<Rightarrow> FileRecord" where
  "reused_record e record =
     record\<lparr> file_metadata :=
               (file_metadata record)\<lparr> vector_chunks :=
                  (case vector_chunks (file_metadata record) of
                     None \<Rightarrow> vector_chunks (file_metadata e)
                   | Some own \<Rightarrow> Some own) \<rparr>,
             embedding_vector := embedding_vector e,
             embedding_determined_at := embedding_determined_at e,
             summary := summary e,
             preview_image :=
               (case preview_image record of
                  None \<Rightarrow> preview_image e
                | Some img \<Rightarrow> if img = [] then preview_image e else Some img),
             index_status := Indexed,
             error_reason := None,
             error_at := None \<rparr>"

definition make_document :: "FileRecord \<Rightarrow> ChunkSnapshot \<times> vector \<Rightarrow> VectorDocument" where
  "make_document record cv =
     \<lparr> doc_id = chunk_id (fst cv),
       doc_vector = snd cv,
       doc_file_id = file_record_id record,
       doc_path = path record,
       doc_summary = summary record,
       doc_chunk = fst cv \<rparr>"

definition store_artifact ::
  "Services \<Rightarrow> Settings \<Rightarrow> datetime \<Rightarrow> IngestArtifact \<Rightarrow> bool \<Rightarrow> World
   \<Rightarrow> IngestArtifact \<times> World" where
  "store_artifact sv cfg now artifact refresh_embeddings w =
     (let record = art_record artifact;
          existing = files w (file_record_id record);
          prev = previous_chunk_ids existing
      in if reuse_vectors cfg existing record refresh_embeddings then
           (case existing of
              None \<Rightarrow> (artifact, w)
            | Some e \<Rightarrow>
                (artifact\<lparr> art_record := reused_record e record \<rparr>,
                 upsert_file (reused_record e record) w))
         else
           (let chunk_snapshots = art_chunks artifact;
                (embedded, w1) = embed_chunks sv cfg chunk_snapshots w;
                vectors = (case embedded of Inl raised \<Rightarrow> [] | Inr vs \<Rightarrow> vs);
                documents = map (make_document record) (zip chunk_snapshots vectors);
                w2 = (case prev of
                        None \<Rightarrow> w1
                      | Some ids \<Rightarrow>
                          if ids \<noteq> [] then w1\<lparr> delete_calls := delete_calls w1 @ [ids] \<rparr>
                          else w1);
                upsert_done = (documents \<noteq> [] \<and> upsert_ok sv documents);
                w3 = (if documents \<noteq> []
                      then w2\<lparr> upsert_calls := upsert_calls w2 @ [documents],
                               flush_calls := (if upsert_done then flush_calls w2 + 1
                                               else flush_calls w2) \<rparr>
                      else w2);
                documents' = (if documents \<noteq> [] \<and> \<not> (upsert_done \<and> flush_ok sv) then []
                              else documents);
                record1 = record\<lparr> file_metadata :=
                            (file_metadata record)\<lparr> vector_chunks :=
                               Some (map doc_id documents') \<rparr> \<rparr>;
                record2 = (if vectors \<noteq> []
                           then record1\<lparr> embedding_vector := Some (hd vectors),
                                         embedding_determined_at := Some now \<rparr>
                           else record1);
                record3 = record2\<lparr> index_status := Indexed,
                                   error_reason := None,
                                   error_at := None \<rparr>
            in (artifact\<lparr> art_record := record3 \<rparr>,
                replace_chunks (file_record_id record3) chunk_snapshots
                  (upsert_file record3 w3))))"

subsection \<open>The end of \<open>_process_single_file\<close>\<close>

definition mark_file_indexed :: "string \<Rightarrow> World \<Rightarrow> World" where
  "mark_file_indexed fid w =
     (case files w fid of
        None \<Rightarrow> w
      | Some r \<Rightarrow> w\<lparr> files := (files w)(fid \<mapsto> r\<lparr> index_status := Indexed,
                                                   error_reason := None,
                                                   error_at := None \<rparr>) \<rparr>)"

definition mark_file_error :: "string \<Rightarrow> string \<Rightarrow> datetime \<Rightarrow> World \<Rightarrow> World" where
  "mark_file_error fid reason now w =
     (case files w fid of
        None \<Rightarrow> w
      | Some r \<Rightarrow> w\<lparr> files := (files w)(fid \<mapsto> r\<lparr> index_status := Error,
                                                   error_reason := Some reason,
                                                   error_at := Some now \<rparr>) \<rparr>)"

text \<open>
  \<open>staged\<close> is what the scan and enrich stages gave for the file: the artifact, or the
  message of the exception one of them raised. The result says whether the file counts
  as processed.
\<close>

definition process_single_file ::
  "Services \<Rightarrow> Settings \<Rightarrow> datetime \<Rightarrow> string \<Rightarrow> string + IngestArtifact \<Rightarrow> bool \<Rightarrow> World
   \<Rightarrow> bool \<times> World" where
  "process_single_file sv cfg now fid staged refresh_embeddings w =
     (case staged of
        Inl raised \<Rightarrow> (False, mark_file_error fid raised now w)
      | Inr artifact \<Rightarrow>
          (True, mark_file_indexed fid
                   (snd (store_artifact sv cfg now artifact refresh_embeddings w))))"

subsection \<open>Concrete values for the evaluations\<close>

definition example_chunk :: ChunkSnapshot where
  "example_chunk =
     \<lparr> chunk_id = ''c0'', file_id = ''f1'', ordinal = 0, chunk_text = ''hello'',
       snippet = ''hello'', token_count = 1, char_count = 5, section_path = None,
       metadata = \<lparr> md_section_path = None, start_char = 0, end_char = 5,
                    page_numbers = None, page_start = None, page_end = None \<rparr>,
       created_at = 0 \<rparr>"

definition example_record :: FileRecord where
  "example_record =
     \<lparr> file_record_id = ''f1'', folder_id = ''d1'', path = ''/docs/a.txt'', name = ''a.txt'',
       file_size = 5, modified_at = 1000000, kind = ''document'',
       checksum_sha256 = Some ''abc'', summary = None, preview_image = None,
       file_metadata = \<lparr> vector_chunks = None, chunk_strategy = Some ''chunker_v1_fast'',
                         other_keys = [] \<rparr>,
       embedding_vector = None, embedding_determined_at = None,
       index_status = Pending, error_reason = None, error_at = None \<rparr>"

definition example_artifact :: IngestArtifact where
  "example_artifact =
     \<lparr> art_record = example_record, art_text = ''hello'', art_chunks = [example_chunk],
       art_page_mapping = [] \<rparr>"

text \<open>A stored record of the same file, indexed before with a vector of two components.\<close>

definition example_existing :: FileRecord where
  "example_existing =
     example_record\<lparr> file_metadata := \<lparr> vector_chunks = Some [''c0''],
                                          chunk_strategy = Some ''chunker_v1_fast'',
                                          other_keys = [] \<rparr>,
                     embedding_vector := Some [Float64 0, Float64 1],
                     embedding_determined_at := Some 500000,
                     index_status := Indexed \<rparr>"

definition example_settings :: Settings where
  "example_settings = \<lparr> reuse_embeddings = True, embed_batch_size = 16, embed_max_chars = 2000 \<rparr>"

text \<open>An embedding client that returns no vector, whatever the batch.\<close>

definition short_services :: Services where
  "short_services = \<lparr> encode = (\<lambda>texts. Inr []), upsert_ok = (\<lambda>docs. True), flush_ok = True \<rparr>"

definition empty_world :: World where
  "empty_world =
     \<lparr> files = (\<lambda>fid. None), chunk_rows = (\<lambda>fid. []), encode_calls = [], delete_calls = [],
       upsert_calls = [], flush_calls = 0, stage_calls = [] \<rparr>"

text \<open>A storage that holds the record indexed before.\<close>

definition stored_world :: World where
  "stored_world = empty_world\<lparr> files := (\<lambda>fid. if fid = ''f1'' then Some example_existing else None) \<rparr>"

section \<open>Indexer: change detection\<close>

record FailedFile =
  failed_path :: string
  reason :: string
  timestamp :: datetime

record FolderRecord =
  folder_record_id :: string
  folder_path :: string
  failed_files :: "FailedFile list"

text \<open>
  What \<open>path.stat()\<close> gives: the modification time, as the \<open>datetime\<close> the source makes
  of it, and the size. The filesystem is a function from paths, \<open>None\<close> where \<open>stat\<close>
  raises \<open>OSError\<close>; \<open>fingerprint\<close> is the hash of the resolved path.
\<close>

record FileStat =
  st_mtime :: datetime
  st_size :: int

definition checksum_missing :: "FileRecord \<Rightarrow> bool" where
  "checksum_missing e = (case checksum_sha256 e of None \<Rightarrow> True | Some c \<Rightarrow> c = [])"

text \<open>The loop of \<open>_paths_to_refresh\<close>; a second is 1000000 microseconds.\<close>

fun refresh_loop ::
  "(string \<Rightarrow> string) \<Rightarrow> (string \<Rightarrow> FileStat option) \<Rightarrow> (string \<Rightarrow> FileRecord option)
   \<Rightarrow> string list \<Rightarrow> string list \<Rightarrow> string list" where
  "refresh_loop fingerprint stat get_file failed_paths [] = []"
| "refresh_loop fingerprint stat get_file failed_paths (p # ps) =
     (let changed = refresh_loop fingerprint stat get_file failed_paths ps
      in if p \<in> set failed_paths then p # changed
         else
           (case get_file (fingerprint p) of
              None \<Rightarrow> p # changed
            | Some existing \<Rightarrow>
                (case stat p of
                   None \<Rightarrow> p # changed
                 | Some st \<Rightarrow>
                     if 1000000 \<le> \<bar>st_mtime st - modified_at existing\<bar> then p # changed
                     else if file_size existing \<noteq> st_size st then p # changed
                     else if checksum_missing existing then p # changed
                     else changed)))"

definition paths_to_refresh ::
  "(string \<Rightarrow> string) \<Rightarrow> (string \<Rightarrow> FileStat option) \<Rightarrow> (string \<Rightarrow> FileRecord option)
   \<Rightarrow> FolderRecord \<Rightarrow> string list \<Rightarrow> bool \<Rightarrow> string list" where
  "paths_to_refresh fingerprint stat get_file folder paths refresh_embeddings =
     (if refresh_embeddings then paths
      else refresh_loop fingerprint stat get_file (map failed_path (failed_files folder)) paths)"

section \<open>Indexer: the run\<close>

text \<open>
  The indexer runs on one event loop: what stands between two suspension points of a
  coroutine happens in one step. A refresh is suspended only while it waits for the pause
  event before a file, or inside the processing of a file; a frame of type \<open>Run\<close> holds
  its local state there. \<open>runs\<close> lists the refresh coroutines that are suspended inside
  the lock. Storage and the vector store are not part of this state.
\<close>

datatype run_status = Idle | Running | Paused | Failed | Completed

record IndexProgress =
  status :: run_status
  started_at :: "datetime option"
  completed_at :: "datetime option"
  processed :: int
  failed :: int
  total :: "int option"
  message :: "string option"
  last_error :: "string option"
  failed_items :: "FailedFile list"

text \<open>
  \<open>Waiting\<close>: blocked in \<open>_pause_event.wait()\<close> before \<open>run_file\<close>. \<open>Woken\<close>: the event
  was set meanwhile, the wait returns when the coroutine runs next. \<open>InFlight\<close>:
  suspended inside \<open>_process_single_file\<close> for \<open>run_file\<close>.
\<close>

datatype phase = InFlight | Waiting | Woken

record Run =
  run_started :: datetime
  run_total :: int
  run_folder :: string
  run_file :: string
  run_phase :: phase
  run_rest :: "string list"
  run_later :: "(string \<times> string list) list"

record Indexer =
  progress :: IndexProgress
  lock_locked :: bool
  pending_paths :: "(string \<times> string list) list"
  active_folder :: "string option"
  active_path :: "string option"
  active_started_at :: "datetime option"
  current_run_started :: "datetime option"
  current_run_total :: int
  current_processed :: int
  pause_event :: bool
  is_paused :: bool
  cancelled_folders :: "string list"
  runs :: "Run list"

definition Indexer_init :: Indexer where
  "Indexer_init =
     \<lparr> progress = \<lparr> status = Idle, started_at = None, completed_at = None, processed = 0,
                    failed = 0, total = None, message = None, last_error = None,
                    failed_items = [] \<rparr>,
       lock_locked = False, pending_paths = [], active_folder = None, active_path = None,
       active_started_at = None, current_run_started = None, current_run_total = 0,
       current_processed = 0, pause_event = True, is_paused = False,
       cancelled_folders = [], runs = [] \<rparr>"

text \<open>\<open>n or None\<close>.\<close>

definition or_none :: "int \<Rightarrow> int option" where
  "or_none n = (if n = 0 then None else Some n)"

definition set_running_progress :: "string option \<Rightarrow> Indexer \<Rightarrow> Indexer" where
  "set_running_progress msg ix =
     (case current_run_started ix of
        None \<Rightarrow> ix
      | Some started \<Rightarrow>
          ix\<lparr> progress :=
                \<lparr> status = Running, started_at = Some started, completed_at = None,
                  processed = current_processed ix, failed = failed (progress ix),
                  total = or_none (current_run_total ix),
                  message = (case msg of None \<Rightarrow> message (progress ix) | Some m \<Rightarrow> Some m),
                  last_error = None, failed_items = failed_items (progress ix) \<rparr> \<rparr>)"

text \<open>\<open>_pause_event.set()\<close> also wakes the coroutines that wait for the event.\<close>

definition event_set :: "Indexer \<Rightarrow> Indexer" where
  "event_set ix =
     ix\<lparr> pause_event := True,
         runs := map (\<lambda>r. if run_phase r = Waiting then r\<lparr> run_phase := Woken \<rparr> else r)
                     (runs ix) \<rparr>"

text \<open>\<open>pause\<close> and \<open>resume\<close> return the \<open>progress\<close> of the state they leave.\<close>

definition pause :: "Indexer \<Rightarrow> Indexer" where
  "pause ix =
     (if status (progress ix) \<noteq> Running \<or> is_paused ix then ix
      else ix\<lparr> is_paused := True, pause_event := False,
               progress :=
                 \<lparr> status = Paused, started_at = current_run_started ix, completed_at = None,
                   processed = current_processed ix, failed = failed (progress ix),
                   total = or_none (current_run_total ix),
                   message = Some ''Indexing paused.'',
                   last_error = last_error (progress ix),
                   failed_items = failed_items (progress ix) \<rparr> \<rparr>)"

text \<open>The message of \<open>resume\<close> ends in the source with the single character U+2026.\<close>

definition resume :: "Indexer \<Rightarrow> Indexer" where
  "resume ix =
     (if \<not> is_paused ix then ix
      else set_running_progress (Some ''Resuming indexing...'')
             (event_set (ix\<lparr> is_paused := False \<rparr>)))"

definition cancel_folder :: "string \<Rightarrow> Indexer \<Rightarrow> Indexer" where
  "cancel_folder fid ix = ix\<lparr> cancelled_folders := List.insert fid (cancelled_folders ix) \<rparr>"

subsection \<open>The dictionary of pending paths\<close>

definition dict_get :: "string \<Rightarrow> (string \<times> string list) list \<Rightarrow> string list option" where
  "dict_get k d = map_of d k"

definition dict_pop :: "string \<Rightarrow> (string \<times> string list) list \<Rightarrow> (string \<times> string list) list" where
  "dict_pop k d = filter (\<lambda>kv. fst kv \<noteq> k) d"

definition dict_set ::
  "string \<Rightarrow> string list \<Rightarrow> (string \<times> string list) list \<Rightarrow> (string \<times> string list) list" where
  "dict_set k v d =
     (if k \<in> set (map fst d) then map (\<lambda>kv. if fst kv = k then (k, v) else kv) d
      else d @ [(k, v)])"

text \<open>\<open>list(dict.fromkeys(xs))\<close>: the first occurrence of each element, in order.\<close>

definition dedup :: "string list \<Rightarrow> string list" where
  "dedup xs = rev (remdups (rev xs))"

definition path_name :: "string \<Rightarrow> string" where
  "path_name p = rev (takeWhile (\<lambda>c. c \<noteq> CHR ''/'') (rev p))"

subsection \<open>\<open>_process_folder\<close> and the loop of \<open>refresh\<close>\<close>

text \<open>The start of \<open>_process_folder\<close>, up to its loop.\<close>

definition begin_folder :: "string \<Rightarrow> string list \<Rightarrow> Indexer \<Rightarrow> Indexer" where
  "begin_folder folder process_list ix =
     ix\<lparr> pending_paths := (if process_list \<noteq> []
                            then dict_set folder process_list (pending_paths ix)
                            else dict_pop folder (pending_paths ix)),
         active_folder := Some folder \<rparr>"

text \<open>
  The loop body from the return of the wait to the first suspension inside
  \<open>_process_single_file\<close>.
\<close>

definition start_file :: "datetime \<Rightarrow> string \<Rightarrow> string \<Rightarrow> Indexer \<Rightarrow> Indexer" where
  "start_file now folder p ix =
     set_running_progress (Some (''Indexing '' @ path_name p))
       (ix\<lparr> pending_paths :=
               (case dict_get folder (pending_paths ix) of
                  None \<Rightarrow> pending_paths ix
                | Some queue \<Rightarrow>
                    (case queue of
                       [] \<Rightarrow> pending_paths ix
                     | q # qs \<Rightarrow> if q = p then dict_set folder qs (pending_paths ix)
                                else pending_paths ix)),
             active_folder := Some folder,
             active_path := Some p,
             active_started_at := Some now \<rparr>)"

text \<open>
  The head of the per-file loop: the next path the loop turns to, unless the list is
  exhausted or the folder is cancelled.
\<close>

definition next_file :: "string \<Rightarrow> string list \<Rightarrow> Indexer \<Rightarrow> (string \<times> string list) option" where
  "next_file folder paths ix =
     (case paths of
        [] \<Rightarrow> None
      | p # rest \<Rightarrow> if folder \<in> set (cancelled_folders ix) then None else Some (p, rest))"

text \<open>
  \<open>await self._pause_event.wait()\<close> before the file: with the event set the loop goes
  straight into the file, otherwise the coroutine is suspended there.
\<close>

definition wait_then_start ::
  "datetime \<Rightarrow> datetime \<Rightarrow> int \<Rightarrow> string \<Rightarrow> string \<Rightarrow> string list \<Rightarrow> (string \<times> string list) list
   \<Rightarrow> Indexer \<Rightarrow> Run \<times> Indexer" where
  "wait_then_start now started total_files folder p rest batches ix =
     (if pause_event ix
      then (\<lparr> run_started = started, run_total = total_files, run_folder = folder,
               run_file = p, run_phase = InFlight, run_rest = rest, run_later = batches \<rparr>,
            start_file now folder p ix)
      else (\<lparr> run_started = started, run_total = total_files, run_folder = folder,
               run_file = p, run_phase = Waiting, run_rest = rest, run_later = batches \<rparr>,
            ix))"

text \<open>
  After the loop of \<open>_process_folder\<close>, and the \<open>else\<close> branch of \<open>refresh\<close> for the
  folder.
\<close>

definition end_folder :: "datetime \<Rightarrow> int \<Rightarrow> string \<Rightarrow> Indexer \<Rightarrow> Indexer" where
  "end_folder started total_files folder ix =
     ix\<lparr> pending_paths :=
           (case dict_get folder (pending_paths ix) of
              None \<Rightarrow> dict_pop folder (pending_paths ix)
            | Some queue \<Rightarrow> if queue = [] then dict_pop folder (pending_paths ix)
                              else pending_paths ix),
         active_folder := None,
         progress :=
           \<lparr> status = Running, started_at = Some started, completed_at = None,
             processed = current_processed ix, failed = failed (progress ix),
             total = or_none total_files, message = message (progress ix),
             last_error = None, failed_items = failed_items (progress ix) \<rparr> \<rparr>"

text \<open>The end of \<open>refresh\<close>, after its loop over the batches.\<close>

definition cleanup :: "Indexer \<Rightarrow> Indexer" where
  "cleanup ix =
     (event_set (ix\<lparr> pending_paths := [], active_folder := None, active_path := None,
                     active_started_at := None \<rparr>))\<lparr> is_paused := False \<rparr>"

definition complete :: "datetime \<Rightarrow> datetime \<Rightarrow> int \<Rightarrow> Indexer \<Rightarrow> Indexer" where
  "complete now started total_files ix =
     cleanup
       (ix\<lparr> progress :=
               \<lparr> status = Completed, started_at = Some started, completed_at = Some now,
                 processed = current_processed ix, failed = failed (progress ix),
                 total = or_none total_files,
                 message = (if total_files = 0 then Some ''No changes detected.'' else None),
                 last_error = None, failed_items = failed_items (progress ix) \<rparr> \<rparr>)"

text \<open>
  The loop of \<open>refresh\<close> over the batches (folder id and paths to process), from the top
  of an iteration to the next suspension, which gives a frame, or to the end of the run.
\<close>

fun run_batches ::
  "datetime \<Rightarrow> datetime \<Rightarrow> int \<Rightarrow> (string \<times> string list) list \<Rightarrow> Indexer
   \<Rightarrow> Run option \<times> Indexer" where
  "run_batches now started total_files [] ix = (None, complete now started total_files ix)"
| "run_batches now started total_files ((folder, to_process) # batches) ix =
     (if folder \<in> set (cancelled_folders ix)
      then run_batches now started total_files batches ix
      else
        (let process_list = dedup to_process;
             ix1 = begin_folder folder process_list ix
         in case next_file folder process_list ix1 of
              Some (p, rest) \<Rightarrow>
                (case wait_then_start now started total_files folder p rest batches ix1 of
                   (frame, ix2) \<Rightarrow> (Some frame, ix2))
            | None \<Rightarrow>
                run_batches now started total_files batches
                  (end_folder started total_files folder ix1)))"

subsection \<open>\<open>refresh\<close>\<close>

text \<open>
  The arguments, as \<open>_resolve_targets\<close> and \<open>_prepare_batches\<close> read them from the
  storage and the filesystem: the ids of the target folders, and per target its paths to
  process.
\<close>

record RefreshArgs =
  target_folders :: "string list"
  folder_batches :: "(string \<times> string list) list"

definition no_folders_progress :: "datetime \<Rightarrow> IndexProgress" where
  "no_folders_progress now =
     \<lparr> status = Failed, started_at = Some now, completed_at = Some now, processed = 0,
       failed = 0, total = None, message = Some ''no-folders'',
       last_error = Some ''No folders registered for indexing.'', failed_items = [] \<rparr>"

text \<open>
  The result is the progress \<open>refresh\<close> returns, when it returns in this step, and the
  state it leaves; \<open>None\<close> says the coroutine is suspended inside the lock.
\<close>

definition refresh :: "datetime \<Rightarrow> RefreshArgs \<Rightarrow> Indexer \<Rightarrow> IndexProgress option \<times> Indexer" where
  "refresh now args ix =
     (if lock_locked ix then (Some (progress ix), ix)
      else
        (let ix1 = (event_set (ix\<lparr> lock_locked := True, is_paused := False \<rparr>))
                     \<lparr> cancelled_folders := [], pending_paths := [], active_folder := None,
                       active_path := None, active_started_at := None \<rparr>
         in if target_folders args = [] then
              (Some (no_folders_progress now),
               (event_set (ix1\<lparr> current_run_started := Some now, current_run_total := 0,
                               current_processed := 0,
                               progress := no_folders_progress now \<rparr>))
                 \<lparr> is_paused := False, lock_locked := False \<rparr>)
            else
              (let total_files = int (sum_list (map (\<lambda>b. length (snd b)) (folder_batches args)));
                   ix2 = ix1\<lparr> current_run_started := Some now,
                              current_run_total := total_files,
                              current_processed := 0,
                              progress :=
                                \<lparr> status = Running, started_at = Some now,
                                  completed_at = None, processed = 0, failed = 0,
                                  total = or_none total_files, message = None,
                                  last_error = None, failed_items = [] \<rparr> \<rparr>
               in case run_batches now now total_files (folder_batches args) ix2 of
                    (Some frame, ix3) \<Rightarrow> (None, ix3\<lparr> runs := runs ix3 @ [frame] \<rparr>)
                  | (None, ix3) \<Rightarrow> (Some (progress ix3), ix3\<lparr> lock_locked := False \<rparr>))))"

subsection \<open>A suspended refresh goes on\<close>

datatype outcome = Succeeded | FailedWith string | Crashed string

text \<open>
  The file in flight ends: it succeeded, or failed with a recorded reason, or an
  exception left \<open>_process_folder\<close>. Then the loop turns to the next file.
\<close>

definition continue_loop :: "datetime \<Rightarrow> Run \<Rightarrow> Indexer \<Rightarrow> Run option \<times> Indexer" where
  "continue_loop now r ix =
     (case next_file (run_folder r) (run_rest r) ix of
        Some (p, rest) \<Rightarrow>
          (case wait_then_start now (run_started r) (run_total r) (run_folder r)
                  p rest (run_later r) ix of
             (frame, ix') \<Rightarrow> (Some frame, ix'))
      | None \<Rightarrow>
          run_batches now (run_started r) (run_total r) (run_later r)
            (end_folder (run_started r) (run_total r) (run_folder r) ix))"

definition file_done :: "datetime \<Rightarrow> outcome \<Rightarrow> Run \<Rightarrow> Indexer \<Rightarrow> Run option \<times> Indexer" where
  "file_done now oc r ix =
     (let ended = ix\<lparr> active_path := None, active_started_at := None \<rparr>
      in case oc of
           Succeeded \<Rightarrow>
             continue_loop now r
               (set_running_progress None
                  (ended\<lparr> current_processed := current_processed ix + 1 \<rparr>))
         | FailedWith why \<Rightarrow>
             continue_loop now r
               (set_running_progress None
                  (ended\<lparr> progress :=
                            (progress ix)
                              \<lparr> failed := failed (progress ix) + 1,
                                failed_items :=
                                  failed_items (progress ix)
                                  @ [\<lparr> failed_path = run_file r, reason = why,
                                       timestamp = now \<rparr>] \<rparr> \<rparr>))
         | Crashed raised \<Rightarrow>
             (None,
              cleanup
                (ended\<lparr> pending_paths := dict_pop (run_folder r) (pending_paths ix),
                        active_folder := None,
                        progress :=
                          \<lparr> status = Failed, started_at = Some (run_started r),
                            completed_at = Some now, processed = current_processed ix,
                            failed = failed (progress ix), total = or_none (run_total r),
                            message = message (progress ix), last_error = Some raised,
                            failed_items = failed_items (progress ix) \<rparr> \<rparr>)))"

text \<open>The wait for the pause event returns and the loop goes into the file.\<close>

definition wake :: "datetime \<Rightarrow> Run \<Rightarrow> Indexer \<Rightarrow> Run option \<times> Indexer" where
  "wake now r ix =
     (Some (r\<lparr> run_phase := InFlight \<rparr>), start_file now (run_folder r) (run_file r) ix)"

text \<open>
  The coroutine at position \<open>i\<close> is suspended again with a new frame, or has left the
  lock.
\<close>

definition settle :: "nat \<Rightarrow> Run option \<times> Indexer \<Rightarrow> Indexer" where
  "settle i res =
     (case res of
        (Some frame, ix) \<Rightarrow> ix\<lparr> runs := (runs ix)[i := frame] \<rparr>
      | (None, ix) \<Rightarrow> ix\<lparr> runs := take i (runs ix) @ drop (Suc i) (runs ix),
                           lock_locked := False \<rparr>)"

datatype event =
    RefreshCall datetime RefreshArgs
  | PauseCall
  | ResumeCall
  | CancelCall string
  | FileDone nat datetime outcome
  | Wake nat datetime

definition step :: "event \<Rightarrow> Indexer \<Rightarrow> Indexer" where
  "step ev ix =
     (case ev of
        RefreshCall now args \<Rightarrow> snd (refresh now args ix)
      | PauseCall \<Rightarrow> pause ix
      | ResumeCall \<Rightarrow> resume ix
      | CancelCall fid \<Rightarrow> cancel_folder fid ix
      | FileDone i now oc \<Rightarrow>
          if i < length (runs ix) \<and> run_phase (runs ix ! i) = InFlight
          then settle i (file_done now oc (runs ix ! i) ix)
          else ix
      | Wake i now \<Rightarrow>
          if i < length (runs ix) \<and> run_phase (runs ix ! i) = Woken
          then settle i (wake now (runs ix ! i) ix)
          else ix)"

text \<open>The states the indexer can reach from its construction.\<close>

inductive reachable :: "Indexer \<Rightarrow> bool" where
  reachable_init: "reachable Indexer_init"
| reachable_step: "reachable ix \<Longrightarrow> reachable (step ev ix)"

subsection \<open>Concrete values for the evaluations of the run\<close>

text \<open>One target folder with two files to process, and a folder with no failed file.\<close>

definition two_files :: RefreshArgs where
  "two_files = \<lparr> target_folders = [''d1''], folder_batches = [(''d1'', [''/docs/a.txt'', ''/docs/b.txt''])] \<rparr>"

definition example_folder :: FolderRecord where
  "example_folder = \<lparr> folder_record_id = ''d1'', folder_path = ''/docs'', failed_files = [] \<rparr>"

section \<open>Auxiliary notions for the proofs\<close>

text \<open>
  \<open>consistent\<close>: the \<open>char_count\<close> field is the length of the text, as it is for every
  payload \<open>build\<close> makes. \<open>tight\<close>: a size below the minimum cannot be joined with
  its neighbour within the maximum. \<open>bounded\<close>: a size within the relaxed ceiling, or the
  size of a payload that entered the merge pass. \<open>merge_inv\<close> is the invariant of the
  merge loop.
\<close>

definition consistent :: "ChunkPayload \<Rightarrow> bool" where
  "consistent c = (char_count c = len (chunk_text c))"

definition tight :: "int \<Rightarrow> int \<Rightarrow> int \<Rightarrow> int \<Rightarrow> bool" where
  "tight mn mx a b = (a < mn \<longrightarrow> mx < a + b + 2)"

definition bounded :: "int set \<Rightarrow> int \<Rightarrow> ChunkPayload \<Rightarrow> bool" where
  "bounded S mx c = (2 * char_count c \<le> 3 * mx \<or> char_count c \<in> S)"

definition merge_inv ::
  "int set \<Rightarrow> int \<Rightarrow> int \<Rightarrow> ChunkPayload list \<times> ChunkPayload option \<Rightarrow> bool" where
  "merge_inv S mn mx st =
     (case st of (merged, pend) \<Rightarrow>
        list_all consistent merged \<and> list_all (bounded S mx) merged \<and>
        successively (tight mn mx) (map char_count merged) \<and>
        (case pend of
           None \<Rightarrow> merged = [] \<or> mn \<le> last (map char_count merged)
         | Some q \<Rightarrow> consistent q \<and> bounded S mx q \<and> char_count q < mn
                     \<and> (merged = [] \<or> tight mn mx (last (map char_count merged)) (char_count q))))"

text \<open>
  \<open>lock_inv\<close>: the lock is held exactly while a refresh is suspended inside it, and
  there is at most one such refresh.
\<close>

definition lock_inv :: "Indexer \<Rightarrow> bool" where
  "lock_inv ix = ((lock_locked ix = (0 < length (runs ix))) \<and> length (runs ix) \<le> 1)"

text \<open>A payload with its creation time replaced.\<close>

definition stamp :: "datetime \<Rightarrow> ChunkPayload \<Rightarrow> ChunkPayload" where
  "stamp t c = c\<lparr> created_at := t \<rparr>"

text \<open>
  \<open>blank\<close>: a string of whitespace only, the strings whose \<open>strip\<close> is empty. \<open>trail\<close>: the
  number of whitespace characters at the end of a string.
\<close>

definition blank :: "string \<Rightarrow> bool" where
  "blank s = list_all is_space s"

definition trail :: "string \<Rightarrow> nat" where
  "trail s = length (takeWhile is_space (rev s))"


definition unit_ok :: "int \<Rightarrow> SemanticBlock \<Rightarrow> bool" where
  "unit_ok mx b =
     (strip (block_text b) \<noteq> []
      \<and> (if len (block_text b) \<le> mx then True
         else block_type b \<noteq> Code \<and> block_type b \<noteq> Table
              \<and> list_all (\<lambda>x. len (fst x) \<le> mx) (split_into_sentences (block_text b))))"

definition units_fit :: "int \<Rightarrow> string \<Rightarrow> bool" where
  "units_fit mx body =
     (parse_semantic_blocks body \<noteq> [] \<and> list_all (unit_ok mx) (parse_semantic_blocks body))"



text \<open>
  The invariants of the loops of \<open>_split_at_sentences\<close> and \<open>_semantic_chunk\<close> for the
  sizes: every chunk made so far is within the bound \<open>B\<close>, and the current chunk, unless
  empty, is not blank, is within \<open>B\<close> once its leading whitespace is taken off, and ends
  in less than \<open>mx\<close> characters of whitespace.
\<close>

definition sent_inv :: "int \<Rightarrow> int \<Rightarrow> chunk list \<times> string \<times> nat \<Rightarrow> bool" where
  "sent_inv B mx st =
     (case st of (chunks, cur, cs) \<Rightarrow>
        list_all (\<lambda>c. len (fst c) \<le> B) chunks
        \<and> (cur = [] \<or> (\<not> blank cur \<and> int (length (lstrip cur)) \<le> B \<and> int (trail cur) < mx)))"

definition size_inv :: "int \<Rightarrow> int \<Rightarrow> chunk list \<times> string \<times> int \<Rightarrow> bool" where
  "size_inv B mx st =
     (case st of (chunks, cur, cs) \<Rightarrow>
        list_all (\<lambda>c. len (strip (fst c)) \<le> B) chunks
        \<and> (cur = [] \<or> (\<not> blank cur \<and> int (length (lstrip cur)) \<le> B \<and> int (trail cur) < mx)))"

text \<open>
  \<open>chain a rs b\<close>: the ranges \<open>rs\<close> start at \<open>a\<close>, each starts two characters after the
  one before it ends, and \<open>b\<close> lies two characters after the end of the last. \<open>block_span\<close>
  and \<open>range_of\<close> are the ranges of a block and of a payload, \<open>sec_ok\<close> collects what the
  section loop needs of a section, and \<open>flat\<close> is the list of payloads that the state of
  the merge loop stands for.
\<close>

fun chain :: "int \<Rightarrow> (int \<times> int) list \<Rightarrow> int \<Rightarrow> bool" where
  "chain a [] b = (a = b)"
| "chain a (r # rs) b = (fst r = a \<and> chain (snd r + 2) rs b)"





section \<open>Properties\<close>

text \<open>
  C10. A pipeline constructed from any arguments has \<open>chunk_tokens\<close> at least 64,
  \<open>min_chunk_tokens\<close> at least 20 and \<open>overlap_tokens\<close> between 0 and
  \<open>chunk_tokens div 4\<close>; the sizes \<open>build\<close> derives from a per-call override are the
  override itself times the character ratio, with no clamping.
\<close>

theorem init_clamps_configuration:
  "64 \<le> chunk_tokens (ChunkingPipeline_init tok ct ot mt)
   \<and> 20 \<le> min_chunk_tokens (ChunkingPipeline_init tok ct ot mt)
   \<and> 0 \<le> overlap_tokens (ChunkingPipeline_init tok ct ot mt)
   \<and> overlap_tokens (ChunkingPipeline_init tok ct ot mt)
        \<le> chunk_tokens (ChunkingPipeline_init tok ct ot mt) div 4
   \<and> chunk_tokens (ChunkingPipeline_init tok ct ot mt) = max ct 64
   \<and> min_chunk_tokens (ChunkingPipeline_init tok ct ot mt) = max mt 20
   \<and> max_chunk_chars (ChunkingPipeline_init tok ct ot mt) (Some c) = c * 4
   \<and> overlap_chars_of (ChunkingPipeline_init tok ct ot mt) (Some v) = v * 4"
  by (simp add: ChunkingPipeline_init_def Let_def max_chunk_chars_def overlap_chars_of_def
      target_chunk_tokens_def target_overlap_tokens_def)

subsection \<open>The clock does not reach the chunk ids\<close>

text \<open>
  \<open>build\<close> reads the clock once and copies it into \<open>created_at\<close>; everything else
  it computes is the same whatever the clock says.
\<close>

lemma stamp_fields [simp]:
  "chunk_id (stamp t c) = chunk_id c" "file_id (stamp t c) = file_id c"
  "ordinal (stamp t c) = ordinal c" "chunk_text (stamp t c) = chunk_text c"
  "snippet (stamp t c) = snippet c" "token_count (stamp t c) = token_count c"
  "char_count (stamp t c) = char_count c" "section_path (stamp t c) = section_path c"
  "metadata (stamp t c) = metadata c" "created_at (stamp t c) = t"
  by (simp_all add: stamp_def)

lemma payload_step_stamp:
  "payload_step p h t fid pm sp off n (map (stamp t) ps, ord) ch =
     (case payload_step p h s fid pm sp off n (ps, ord) ch of
        (ps', ord') \<Rightarrow> (map (stamp t) ps', ord'))"
  by (cases ch) (simp add: payload_step_def Let_def stamp_def)

lemma foldl_payload_step_stamp:
  "foldl (payload_step p h t fid pm sp off n) (map (stamp t) ps, ord) chs =
     (case foldl (payload_step p h s fid pm sp off n) (ps, ord) chs of
        (ps', ord') \<Rightarrow> (map (stamp t) ps', ord'))"
proof (induction chs arbitrary: ps ord)
  case Nil
  then show ?case by simp
next
  case (Cons ch chs)
  obtain ps1 ord1 where s1: "payload_step p h s fid pm sp off n (ps, ord) ch = (ps1, ord1)"
    by (cases "payload_step p h s fid pm sp off n (ps, ord) ch") auto
  have "payload_step p h t fid pm sp off n (map (stamp t) ps, ord) ch = (map (stamp t) ps1, ord1)"
    using payload_step_stamp [of p h t fid pm sp off n ps ord ch s] s1 by simp
  then show ?case using Cons.IH [of ps1 ord1] s1 by simp
qed

lemma build_section_step_stamp:
  "build_section_step p h t fid pm mx mn ov (map (stamp t) ps, ord) sec =
     (case build_section_step p h s fid pm mx mn ov (ps, ord) sec of
        (ps', ord') \<Rightarrow> (map (stamp t) ps', ord'))"
  by (cases sec) (simp add: build_section_step_def Let_def foldl_payload_step_stamp [where s = s])

lemma foldl_build_section_step_stamp:
  "foldl (build_section_step p h t fid pm mx mn ov) (map (stamp t) ps, ord) secs =
     (case foldl (build_section_step p h s fid pm mx mn ov) (ps, ord) secs of
        (ps', ord') \<Rightarrow> (map (stamp t) ps', ord'))"
proof (induction secs arbitrary: ps ord)
  case Nil
  then show ?case by simp
next
  case (Cons sec secs)
  obtain ps1 ord1 where s1: "build_section_step p h s fid pm mx mn ov (ps, ord) sec = (ps1, ord1)"
    by (cases "build_section_step p h s fid pm mx mn ov (ps, ord) sec") auto
  have "build_section_step p h t fid pm mx mn ov (map (stamp t) ps, ord) sec = (map (stamp t) ps1, ord1)"
    using build_section_step_stamp [of p h t fid pm mx mn ov ps ord sec s] s1 by simp
  then show ?case using Cons.IH [of ps1 ord1] s1 by simp
qed

lemma build_payloads_stamp:
  "build_payloads p h t fid text pm ct ot = map (stamp t) (build_payloads p h s fid text pm ct ot)"
  unfolding build_payloads_def
  using foldl_build_section_step_stamp [of p h t fid pm _ _ _ "[]" 0 _ s]
  by (simp add: split_beta)

lemma merge_forward_stamp:
  "merge_forward p pm (stamp t a) (stamp t b) = stamp t (merge_forward p pm a b)"
  by (simp add: merge_forward_def Let_def stamp_def)

lemma merge_backward_stamp:
  "merge_backward p pm (stamp t a) (stamp t b) = stamp t (merge_backward p pm a b)"
  by (simp add: merge_backward_def Let_def stamp_def)

lemma merge_step_stamp:
  "merge_step p mn mx pm (map (stamp t) merged, map_option (stamp t) pend) (stamp t c) =
     (case merge_step p mn mx pm (merged, pend) c of
        (merged', pend') \<Rightarrow> (map (stamp t) merged', map_option (stamp t) pend'))"
  by (cases pend) (simp_all add: merge_step_def Let_def merge_forward_stamp)

lemma foldl_merge_step_stamp:
  "foldl (merge_step p mn mx pm) (map (stamp t) merged, map_option (stamp t) pend) (map (stamp t) cs) =
     (case foldl (merge_step p mn mx pm) (merged, pend) cs of
        (merged', pend') \<Rightarrow> (map (stamp t) merged', map_option (stamp t) pend'))"
proof (induction cs arbitrary: merged pend)
  case Nil
  then show ?case by simp
next
  case (Cons c cs)
  obtain m1 p1 where s1: "merge_step p mn mx pm (merged, pend) c = (m1, p1)"
    by (cases "merge_step p mn mx pm (merged, pend) c") auto
  have "merge_step p mn mx pm (map (stamp t) merged, map_option (stamp t) pend) (stamp t c)
          = (map (stamp t) m1, map_option (stamp t) p1)"
    using merge_step_stamp [of p mn mx pm t merged pend c] s1 by simp
  then show ?case using Cons.IH [of m1 p1] s1 by simp
qed

lemma renumber_stamp: "renumber i (map (stamp t) cs) = map (stamp t) (renumber i cs)"
  by (induction cs arbitrary: i) (simp_all add: stamp_def)

lemma merge_small_chunks_stamp:
  "merge_small_chunks p (map (stamp t) cs) mn mx pm = map (stamp t) (merge_small_chunks p cs mn mx pm)"
proof (cases "length cs \<le> 1")
  case True
  then show ?thesis by (simp add: merge_small_chunks_def)
next
  case False
  obtain m1 p1 where s1: "foldl (merge_step p mn mx pm) ([], None) cs = (m1, p1)"
    by (cases "foldl (merge_step p mn mx pm) ([], None) cs") auto
  have s2: "foldl (merge_step p mn mx pm) ([], None) (map (stamp t) cs)
           = (map (stamp t) m1, map_option (stamp t) p1)"
    using foldl_merge_step_stamp [of p mn mx pm t "[]" None cs] s1 by simp
  show ?thesis
  proof (cases p1)
    case None
    then show ?thesis using False by (simp add: merge_small_chunks_def s1 s2 renumber_stamp)
  next
    case (Some q)
    have app: "\<And>x. butlast (map (stamp t) m1) @ [stamp t x] = map (stamp t) (butlast m1 @ [x])"
      by (simp add: map_butlast)
    have app2: "map (stamp t) m1 @ [stamp t q] = map (stamp t) (m1 @ [q])"
      by simp
    have lst: "m1 \<noteq> [] \<Longrightarrow> last (map (stamp t) m1) = stamp t (last m1)"
      by (simp add: last_map)
    show ?thesis
    proof (cases "m1 \<noteq> [] \<and> char_count (last m1) + char_count q + 2 \<le> mx")
      case True
      then show ?thesis using False Some
        by (simp add: merge_small_chunks_def s1 s2 lst merge_backward_stamp app renumber_stamp
            del: map_append)
    next
      case False2: False
      then show ?thesis using False Some
        by (auto simp add: merge_small_chunks_def s1 s2 lst app2 renumber_stamp
            simp del: map_append)
    qed
  qed
qed

lemma build_stamp:
  "build p h t fid text pm ct ot = map (stamp t) (build p h s fid text pm ct ot)"
  by (simp add: build_def merge_small_chunks_stamp [symmetric]
      build_payloads_stamp [where s = s, symmetric])

text \<open>
  C7. Two calls of \<open>build\<close> with the same pipeline, file id, text, page mapping and
  overrides return the same sequence of chunk ids, at whatever times the calls are made.
\<close>

theorem build_chunk_ids_deterministic:
  "map chunk_id (build p hexdigest now1 fid text page_mapping ct ot)
   = map chunk_id (build p hexdigest now2 fid text page_mapping ct ot)"
proof -
  have "map chunk_id (build p hexdigest now1 fid text page_mapping ct ot)
        = map chunk_id (map (stamp now1) (build p hexdigest now2 fid text page_mapping ct ot))"
    using build_stamp [of p hexdigest now1 fid "text" page_mapping ct ot now2] by simp
  then show ?thesis by (simp add: comp_def)
qed

subsection \<open>Two short sections\<close>

text \<open>
  C8. For the input \<open># A / para1. / (blank) / # B / para2.\<close> every pipeline's section
  minimum (at least 80 characters) exceeds both bodies. \<open>build\<close> on the module's
  default pipeline returns exactly one chunk holding both sections' text; its section
  path is the label of the first section only, \<open>1:A\<close>: \<open>_split_sections\<close> joins the
  bodies and keeps \<open>pending_path\<close>, where \<open>_merge_small_chunks\<close> would have joined
  the labels.
\<close>

theorem build_merged_sections_keep_first_label:
  "map (\<lambda>c. (chunk_text c, section_path c))
       (build (ChunkingPipeline_init None 320 40 50) (\<lambda>s. s) 0 ''f''
          ''# A\<newline>para1.\<newline>\<newline># B\<newline>para2.'' None None None)
   = [(''# A\<newline>para1.\<newline>\<newline># B\<newline>para2.'', Some ''1:A'')]"
  by code_simp

subsection \<open>Character ranges of the chunks\<close>







text \<open>Blank strings, and what \<open>strip\<close> leaves of a string.\<close>

lemma rstrip_empty_iff: "(rstrip s = []) = blank s"
  by (simp add: rstrip_def blank_def list_all_iff dropWhile_eq_Nil_conv)

lemma set_rstrip: "set (rstrip s) \<subseteq> set s"
  using set_dropWhileD [of _ is_space "rev s"] by (auto simp: rstrip_def)

lemma blank_rstrip: "blank (rstrip s) = blank s"
proof
  assume "blank s" thus "blank (rstrip s)"
    using set_rstrip [of s] by (auto simp: blank_def list_all_iff)
next
  assume b: "blank (rstrip s)"
  show "blank s"
  proof (rule ccontr)
    assume n: "\<not> blank s"
    hence "dropWhile is_space (rev s) \<noteq> []"
      by (simp add: blank_def list_all_iff dropWhile_eq_Nil_conv)
    hence "\<not> is_space (hd (dropWhile is_space (rev s)))" by (rule hd_dropWhile)
    moreover have "hd (dropWhile is_space (rev s)) \<in> set (rstrip s)"
      using \<open>dropWhile is_space (rev s) \<noteq> []\<close> by (simp add: rstrip_def)
    ultimately show False using b by (auto simp: blank_def list_all_iff)
  qed
qed

lemma strip_empty_iff: "(strip s = []) = blank s"
proof -
  have "(strip s = []) = blank (rstrip s)"
    by (simp add: strip_def lstrip_def blank_def list_all_iff dropWhile_eq_Nil_conv)
  thus ?thesis by (simp add: blank_rstrip)
qed

lemma blank_append: "blank (a @ b) = (blank a \<and> blank b)"
  by (simp add: blank_def)

lemma blank_NLNL: "blank [NL, NL]"
  by (simp add: blank_def is_space_def NL_def)

lemma lstrip_append: "\<not> blank a \<Longrightarrow> lstrip (a @ x) = lstrip a @ x"
  by (auto simp: lstrip_def blank_def list_all_iff dropWhile_append1)

lemma rstrip_split: "s = rstrip s @ rev (takeWhile is_space (rev s))"
proof -
  have "rev s = takeWhile is_space (rev s) @ dropWhile is_space (rev s)" by simp
  hence "rev (rev s) = rev (takeWhile is_space (rev s) @ dropWhile is_space (rev s))"
    by (rule arg_cong)
  thus ?thesis by (simp add: rstrip_def del: takeWhile_dropWhile_id)
qed

lemma length_rstrip: "length s = length (rstrip s) + trail s"
  using arg_cong [OF rstrip_split [of s], of length] by (simp add: trail_def)

lemma trail_append: "\<not> blank b \<Longrightarrow> trail (x @ b) = trail b"
  by (auto simp: trail_def blank_def list_all_iff takeWhile_append1)

lemma trail_less: "\<not> blank b \<Longrightarrow> trail b < length b"
proof -
  assume "\<not> blank b"
  hence "rstrip b \<noteq> []" by (simp add: rstrip_empty_iff)
  thus ?thesis using length_rstrip [of b] by (cases "rstrip b") auto
qed

lemma length_strip_le_lstrip: "length (strip s) \<le> length (lstrip s)"
proof (cases "blank s")
  case True
  hence "strip s = []" by (simp add: strip_empty_iff)
  thus ?thesis by simp
next
  case False
  hence nb: "\<not> blank (rstrip s)" by (simp add: blank_rstrip)
  have "lstrip s = lstrip (rstrip s @ rev (takeWhile is_space (rev s)))"
    using rstrip_split [of s] by simp
  also have "\<dots> = lstrip (rstrip s) @ rev (takeWhile is_space (rev s))"
    using nb by (rule lstrip_append)
  finally show ?thesis by (simp add: strip_def)
qed

lemma length_lstrip_eq: "\<not> blank s \<Longrightarrow> length (lstrip s) = length (strip s) + trail s"
proof -
  assume "\<not> blank s"
  hence nb: "\<not> blank (rstrip s)" by (simp add: blank_rstrip)
  have "lstrip s = lstrip (rstrip s @ rev (takeWhile is_space (rev s)))"
    using rstrip_split [of s] by simp
  also have "\<dots> = lstrip (rstrip s) @ rev (takeWhile is_space (rev s))"
    using nb by (rule lstrip_append)
  finally show ?thesis by (simp add: strip_def trail_def)
qed

lemma length_lstrip_le: "length (lstrip s) \<le> length s"
  by (simp add: lstrip_def length_dropWhile_le)

lemma length_strip_le: "length (strip s) \<le> length s"
  using length_strip_le_lstrip [of s] length_lstrip_le [of s] by simp


lemma chain_unique: "chain a xs b \<Longrightarrow> chain a xs b' \<Longrightarrow> b = b'"
  by (induction xs arbitrary: a) auto









text \<open>The loops of \<open>build\<close> over the chunks of a section and over the sections.\<close>

lemma with_pages_range [simp]:
  "start_char (with_pages pm md) = start_char md" "end_char (with_pages pm md) = end_char md"
  by (auto simp: with_pages_def Let_def split: option.splits)
























subsection \<open>Sizes after the merge pass\<close>

text \<open>Evaluations on the pipeline with the smallest sizes: minimum 80, maximum 256.\<close>

lemma small_section_eval:
  "map char_count
     (build (ChunkingPipeline_init None 64 0 20) (\<lambda>s. s) 0 ''f''
        (''# A\<newline>a'' @ replicate 90 NL @ ''b\<newline># B\<newline>'' @ replicate 250 CHR ''x'')
        None None None) = [8, 254]"
  by code_simp

lemma default_sizes:
  "min_chunk_chars (ChunkingPipeline_init None 64 0 20) = 80"
  "max_chunk_chars (ChunkingPipeline_init None 64 0 20) None = 256"
  by (simp_all add: min_chunk_chars_def max_chunk_chars_def target_chunk_tokens_def
      ChunkingPipeline_init_def)

text \<open>
  C4, as stated, fails in both parts. A first section of two one-letter paragraphs far
  apart passes the section minimum and yields a chunk of 8 characters, which is returned
  next to the 254 characters of the second section. A paragraph of 70 characters
  followed by one of 250 is returned as one chunk of 322 characters, since a current
  chunk below the minimum takes the next block whatever the sum; no block exceeds 256.
\<close>

lemma oversized_eval:
  "map char_count
     (build (ChunkingPipeline_init None 64 0 20) (\<lambda>s. s) 0 ''f''
        (replicate 70 CHR ''a'' @ [NL, NL] @ replicate 250 CHR ''x'') None None None) = [322]"
  by code_simp

lemma oversized_blocks_eval:
  "map (\<lambda>b. len (block_text b))
     (parse_semantic_blocks (replicate 70 CHR ''a'' @ [NL, NL] @ replicate 250 CHR ''x''))
   = [70, 250]"
  by code_simp

theorem build_breaks_both_size_bounds:
  "\<not> (length (build (ChunkingPipeline_init None 64 0 20) (\<lambda>s. s) 0 ''f''
                 (''# A\<newline>a'' @ replicate 90 NL @ ''b\<newline># B\<newline>'' @ replicate 250 CHR ''x'')
                 None None None) = 1
       \<or> list_all (\<lambda>n. min_chunk_chars (ChunkingPipeline_init None 64 0 20) \<le> n)
            (map char_count
               (build (ChunkingPipeline_init None 64 0 20) (\<lambda>s. s) 0 ''f''
                  (''# A\<newline>a'' @ replicate 90 NL @ ''b\<newline># B\<newline>'' @ replicate 250 CHR ''x'')
                  None None None)))
   \<and> list_all (\<lambda>n. n \<le> max_chunk_chars (ChunkingPipeline_init None 64 0 20) None)
        (map (\<lambda>b. len (block_text b))
           (parse_semantic_blocks (replicate 70 CHR ''a'' @ [NL, NL] @ replicate 250 CHR ''x'')))
   \<and> \<not> list_all (\<lambda>n. n \<le> max_chunk_chars (ChunkingPipeline_init None 64 0 20) None)
          (map char_count
             (build (ChunkingPipeline_init None 64 0 20) (\<lambda>s. s) 0 ''f''
                (replicate 70 CHR ''a'' @ [NL, NL] @ replicate 250 CHR ''x'') None None None))"
proof -
  have l: "length (build (ChunkingPipeline_init None 64 0 20) (\<lambda>s. s) 0 ''f''
                 (''# A\<newline>a'' @ replicate 90 NL @ ''b\<newline># B\<newline>'' @ replicate 250 CHR ''x'')
                 None None None) = 2"
    using arg_cong [OF small_section_eval, of length] by simp
  show ?thesis
    unfolding l small_section_eval oversized_eval oversized_blocks_eval default_sizes by simp
qed

text \<open>The invariant of the merge loop and what it gives for the result.\<close>

lemma merge_forward_count:
  "consistent a \<Longrightarrow> consistent b \<Longrightarrow>
   char_count (merge_forward p pm a b) = char_count a + char_count b + 2"
  by (simp add: merge_forward_def Let_def consistent_def len_def)

lemma merge_forward_consistent: "consistent (merge_forward p pm a b)"
  by (simp add: merge_forward_def Let_def consistent_def)

lemma merge_backward_count:
  "consistent a \<Longrightarrow> consistent b \<Longrightarrow>
   char_count (merge_backward p pm a b) = char_count a + char_count b + 2"
  by (simp add: merge_backward_def Let_def consistent_def len_def)

lemma consistent_nonneg: "consistent a \<Longrightarrow> 0 \<le> char_count a"
  by (simp add: consistent_def len_def)

lemma merge_step_inv:
  assumes "merge_inv S mn mx st" and "consistent c" and "char_count c \<in> S"
  shows "merge_inv S mn mx (merge_step p mn mx pm st c)"
proof -
  obtain merged pend where st: "st = (merged, pend)" by (cases st)
  show ?thesis
  proof (cases pend)
    case None
    then show ?thesis using assms st
      by (auto simp: merge_inv_def merge_step_def successively_append_iff tight_def bounded_def
          hd_map)
  next
    case (Some q)
    have q: "consistent q" "char_count q < mn" "bounded S mx q"
      "merged = [] \<or> tight mn mx (last (map char_count merged)) (char_count q)"
      using assms(1) st Some by (auto simp: merge_inv_def)
    have m: "list_all consistent merged" "list_all (bounded S mx) merged"
      "successively (tight mn mx) (map char_count merged)"
      using assms(1) st by (auto simp: merge_inv_def)
    have cnt: "char_count (merge_forward p pm q c) = char_count q + char_count c + 2"
      using q(1) assms(2) by (rule merge_forward_count)
    have c0: "0 \<le> char_count c" using assms(2) by (rule consistent_nonneg)
    have q0: "0 \<le> char_count q" using q(1) by (rule consistent_nonneg)
    show ?thesis
      using q m cnt c0 q0 assms(2,3) merge_forward_consistent [of p pm q c]
      unfolding st Some merge_inv_def merge_step_def Let_def
      by (auto simp: successively_append_iff tight_def bounded_def hd_map)
  qed
qed

lemma foldl_merge_step_inv:
  "merge_inv S mn mx st \<Longrightarrow> list_all consistent cs \<Longrightarrow> char_count ` set cs \<subseteq> S \<Longrightarrow>
   merge_inv S mn mx (foldl (merge_step p mn mx pm) st cs)"
  by (induction cs arbitrary: st) (simp_all add: merge_step_inv)

lemma renumber_counts: "map char_count (renumber i cs) = map char_count cs"
  by (induction cs arbitrary: i) simp_all

lemma successively_butlast: "successively P xs \<Longrightarrow> successively P (butlast xs)"
proof (cases "xs = []")
  case True
  then show ?thesis by simp
next
  case False
  assume "successively P xs"
  then have "successively P (butlast xs @ [last xs])" using False by simp
  then show ?thesis unfolding successively_append_iff by simp
qed

lemma merge_small_chunks_counts:
  assumes cons: "list_all consistent cs"
  shows "successively (tight mn mx) (map char_count (merge_small_chunks p cs mn mx pm))
       \<and> (1 < length (map char_count (merge_small_chunks p cs mn mx pm)) \<longrightarrow>
            tight mn mx (last (map char_count (merge_small_chunks p cs mn mx pm)))
                        (last (butlast (map char_count (merge_small_chunks p cs mn mx pm)))))
       \<and> list_all (\<lambda>n. 2 * n \<le> 3 * mx \<or> n \<in> char_count ` set cs)
                   (map char_count (merge_small_chunks p cs mn mx pm))"
proof -
  let ?S = "char_count ` set cs"
  define ns where "ns = map char_count (merge_small_chunks p cs mn mx pm)"
  have all: "successively (tight mn mx) ns
        \<and> (1 < length ns \<longrightarrow> tight mn mx (last ns) (last (butlast ns)))
        \<and> list_all (\<lambda>n. 2 * n \<le> 3 * mx \<or> n \<in> ?S) ns"
  proof (cases "length cs \<le> 1")
    case True
    then have ns: "ns = map char_count cs" by (simp add: ns_def merge_small_chunks_def)
    have "length cs = 0 \<or> (\<exists>c. cs = [c])" using True by (cases cs) auto
    then show ?thesis unfolding ns by (auto simp: list_all_iff)
  next
    case False
    obtain merged pend where f: "foldl (merge_step p mn mx pm) ([], None) cs = (merged, pend)"
      by (cases "foldl (merge_step p mn mx pm) ([], None) cs") auto
    have "merge_inv ?S mn mx ([], None)" by (simp add: merge_inv_def)
    then have inv: "merge_inv ?S mn mx (merged, pend)"
      using foldl_merge_step_inv [of ?S mn mx "([], None)" cs p pm] cons f by simp
    have m: "list_all consistent merged" "list_all (bounded ?S mx) merged"
      "successively (tight mn mx) (map char_count merged)"
      using inv by (auto simp: merge_inv_def)
    have bm: "list_all (\<lambda>n. 2 * n \<le> 3 * mx \<or> n \<in> ?S) (map char_count merged)"
      using m(2) by (simp add: list_all_iff bounded_def)
    show ?thesis
    proof (cases pend)
      case None
      then have ns: "ns = map char_count merged"
        using False f by (simp add: ns_def merge_small_chunks_def renumber_counts)
      have "merged = [] \<or> mn \<le> last (map char_count merged)"
        using inv None by (simp add: merge_inv_def)
      then show ?thesis unfolding ns using m(3) bm by (auto simp: tight_def)
    next
      case (Some q)
      have q: "consistent q" "bounded ?S mx q" "char_count q < mn"
        "merged = [] \<or> tight mn mx (last (map char_count merged)) (char_count q)"
        using inv Some by (auto simp: merge_inv_def)
      have q0: "0 \<le> char_count q" using q(1) by (rule consistent_nonneg)
      show ?thesis
      proof (cases "merged \<noteq> [] \<and> last (map char_count merged) + char_count q + 2 \<le> mx")
        case True
        let ?mb = "merge_backward p pm (last merged) q"
        have lastc: "consistent (last merged)"
          using True m(1) by (simp add: list_all_iff)
        have l0: "0 \<le> char_count (last merged)" using lastc by (rule consistent_nonneg)
        have lm: "last (map char_count merged) = char_count (last merged)"
          using True by (simp add: last_map)
        have cnt: "char_count ?mb = last (map char_count merged) + char_count q + 2"
          using merge_backward_count [OF lastc q(1)] lm by simp
        have big: "mn \<le> last (map char_count merged)"
          using True q(4) by (auto simp: tight_def)
        have ns: "ns = map char_count (butlast merged) @ [char_count ?mb]"
          using False f Some True lm by (simp add: ns_def merge_small_chunks_def renumber_counts)
        have sb: "successively (tight mn mx) (map char_count (butlast merged))"
          using m(3) successively_butlast [of "tight mn mx" "map char_count merged"]
          by (simp add: map_butlast)
        have full: "successively (tight mn mx) (map char_count (butlast merged) @ [char_count (last merged)])"
          using m(3) True
          by (metis append_butlast_last_id list.simps(8,9) map_append)
        have link: "butlast merged = [] \<or>
                    tight mn mx (last (map char_count (butlast merged))) (char_count ?mb)"
          using full cnt q0 lm unfolding successively_append_iff by (auto simp: tight_def)
        have s1: "successively (tight mn mx) ns"
          unfolding ns successively_append_iff using sb link by auto
        have s2: "1 < length ns \<longrightarrow> tight mn mx (last ns) (last (butlast ns))"
          unfolding ns using cnt big q0 lm by (simp add: tight_def)
        have "2 * char_count ?mb \<le> 3 * mx" using cnt True l0 q0 lm by simp
        then have s3: "list_all (\<lambda>n. 2 * n \<le> 3 * mx \<or> n \<in> ?S) ns"
          unfolding ns using m(2) by (auto simp: list_all_iff bounded_def dest: in_set_butlastD)
        show ?thesis using s1 s2 s3 by simp
      next
        case nb: False
        have lm: "merged \<noteq> [] \<Longrightarrow> last (map char_count merged) = char_count (last merged)"
          by (simp add: last_map)
        have ns: "ns = map char_count merged @ [char_count q]"
          using False f Some nb lm by (auto simp add: ns_def merge_small_chunks_def renumber_counts)
        have s1: "successively (tight mn mx) ns"
          unfolding ns successively_append_iff using m(3) q(4) by (auto simp: last_map)
        have s2: "1 < length ns \<longrightarrow> tight mn mx (last ns) (last (butlast ns))"
          unfolding ns using nb by (auto simp: tight_def last_map)
        have s3: "list_all (\<lambda>n. 2 * n \<le> 3 * mx \<or> n \<in> ?S) ns"
          unfolding ns using bm q(2) by (simp add: bounded_def)
        show ?thesis using s1 s2 s3 by simp
      qed
    qed
  qed
  then show ?thesis unfolding ns_def .
qed

lemma payload_step_consistent:
  "list_all consistent (fst st) \<Longrightarrow>
   list_all consistent (fst (payload_step p h t fid pm sp off n st ch))"
  by (cases st; cases ch) (simp add: payload_step_def Let_def consistent_def)

lemma foldl_payload_step_consistent:
  "list_all consistent (fst st) \<Longrightarrow>
   list_all consistent (fst (foldl (payload_step p h t fid pm sp off n) st chs))"
  by (induction chs arbitrary: st) (simp_all add: payload_step_consistent)

lemma build_section_step_consistent:
  "list_all consistent (fst st) \<Longrightarrow>
   list_all consistent (fst (build_section_step p h t fid pm mx mn ov st sec))"
  by (cases sec) (simp add: build_section_step_def Let_def foldl_payload_step_consistent)

lemma foldl_build_section_step_consistent:
  "list_all consistent (fst st) \<Longrightarrow>
   list_all consistent (fst (foldl (build_section_step p h t fid pm mx mn ov) st secs))"
  by (induction secs arbitrary: st) (simp_all add: build_section_step_consistent)

lemma build_payloads_consistent:
  "list_all consistent (build_payloads p h t fid text pm ct ot)"
  unfolding build_payloads_def by (rule foldl_build_section_step_consistent) simp

text \<open>
  The sentences of a text lie within it one after the other, so the overlap text is no
  longer than the configured overlap.
\<close>

lemma sentence_scan_bounds:
  "e \<in> set (sentence_scan pos skip s) \<Longrightarrow> pos + skip < e \<and> e \<le> pos + length s"
proof (induction pos skip s rule: sentence_scan.induct)
  case (1 pos skip)
  then show ?case by simp
next
  case (2 pos skip c cs)
  define n where "n = length (takeWhile is_sentence_end (c # cs))
                 + length (takeWhile is_space (dropWhile is_sentence_end (c # cs)))"
  have nle: "n \<le> length (c # cs)"
  proof -
    have "length (takeWhile is_space (dropWhile is_sentence_end (c # cs)))
          \<le> length (dropWhile is_sentence_end (c # cs))"
      by (rule length_takeWhile_le)
    moreover have "length (takeWhile is_sentence_end (c # cs))
          + length (dropWhile is_sentence_end (c # cs)) = length (c # cs)"
      by (metis length_append takeWhile_dropWhile_id)
    ultimately show ?thesis unfolding n_def by linarith
  qed
  show ?case
  proof (cases "0 < skip")
    case True
    with 2 show ?thesis by auto
  next
    case False
    note sk = this
    show ?thesis
    proof (cases "is_sentence_end c")
      case True
      hence npos: "0 < n" by (simp add: n_def)
      from 2(4) sk True have "e = pos + n \<or> e \<in> set (sentence_scan (pos + 1) (n - 1) cs)"
        by (simp add: n_def Let_def)
      thus ?thesis
      proof
        assume "e = pos + n" thus ?thesis using npos nle sk by simp
      next
        assume "e \<in> set (sentence_scan (pos + 1) (n - 1) cs)"
        from 2(2) [OF sk True n_def this] show ?thesis using npos sk by simp
      qed
    next
      case False
      with 2 sk show ?thesis by auto
    qed
  qed
qed

lemma sentence_scan_sorted: "sorted_wrt (<) (sentence_scan pos skip s)"
proof (induction pos skip s rule: sentence_scan.induct)
  case (1 pos skip)
  then show ?case by simp
next
  case (2 pos skip c cs)
  define n where "n = length (takeWhile is_sentence_end (c # cs))
                 + length (takeWhile is_space (dropWhile is_sentence_end (c # cs)))"
  show ?case
  proof (cases "0 < skip")
    case True
    with 2 show ?thesis by simp
  next
    case False
    note sk = this
    show ?thesis
    proof (cases "is_sentence_end c")
      case True
      hence npos: "0 < n" by (simp add: n_def)
      have "\<forall>e \<in> set (sentence_scan (pos + 1) (n - 1) cs). pos + n < e"
        using sentence_scan_bounds [of _ "pos + 1" "n - 1" cs] npos by auto
      moreover have "sorted_wrt (<) (sentence_scan (pos + 1) (n - 1) cs)"
        using 2(2) [OF sk True n_def] .
      ultimately show ?thesis using sk True by (simp add: n_def Let_def)
    next
      case False
      with 2 sk show ?thesis by simp
    qed
  qed
qed

lemma length_slice_le: "length (slice a b s) \<le> b - a"
  by (simp add: slice_def)

lemma sentences_from_total:
  "sorted_wrt (<) es \<Longrightarrow> \<forall>e \<in> set es. le < e \<Longrightarrow>
   sum_list (map (\<lambda>x. length (fst x)) (fst (sentences_from s le es))) + le
     \<le> snd (sentences_from s le es)
   \<and> snd (sentences_from s le es) = last (le # es)"
proof (induction es arbitrary: le)
  case Nil
  then show ?case by simp
next
  case (Cons e es)
  have ih: "sum_list (map (\<lambda>x. length (fst x)) (fst (sentences_from s e es))) + e
     \<le> snd (sentences_from s e es) \<and> snd (sentences_from s e es) = last (e # es)"
    using Cons.prems by (intro Cons.IH) auto
  have l: "le < e" using Cons.prems by simp
  show ?case
    using ih l length_slice_le [of le e s]
    by (auto simp: Let_def split_def)
qed

lemma split_into_sentences_total:
  "sum_list (map (\<lambda>x. length (fst x)) (split_into_sentences s)) \<le> length s"
proof -
  let ?es = "sentence_scan 0 0 s"
  have b: "\<forall>e \<in> set ?es. 0 < e" using sentence_scan_bounds [of _ 0 0 s] by auto
  have t: "sum_list (map (\<lambda>x. length (fst x)) (fst (sentences_from s 0 ?es))) + 0
     \<le> snd (sentences_from s 0 ?es)
   \<and> snd (sentences_from s 0 ?es) = last (0 # ?es)"
    by (rule sentences_from_total [OF sentence_scan_sorted b])
  have le: "snd (sentences_from s 0 ?es) \<le> length s"
  proof (cases "?es = []")
    case True thus ?thesis by simp
  next
    case False
    hence "last ?es \<in> set ?es" by simp
    hence "last ?es \<le> length s" using sentence_scan_bounds [of "last ?es" 0 0 s] by simp
    thus ?thesis using t False by simp
  qed
  show ?thesis
    using t le by (auto simp: split_into_sentences_def Let_def split_def)
qed

lemma sum_tl_le: "sum_list (map f (tl xs)) \<le> sum_list (map f xs)" for f :: "'a \<Rightarrow> nat"
  by (cases xs) auto

lemma length_get_overlap_text: "len (get_overlap_text s ov) \<le> max 0 ov"
proof (cases "ov \<le> 0 \<or> len s \<le> ov")
  case True
  thus ?thesis by (simp add: get_overlap_text_def len_def)
next
  case False
  define r where "r = drop (length s - nat ov) s"
  have lr: "int (length r) \<le> ov" using False by (simp add: r_def len_def) linarith
  have a: "int (length (strip (concat (map fst (tl (split_into_sentences r)))))) \<le> ov"
  proof -
    have "length (concat (map fst (tl (split_into_sentences r))))
          = sum_list (map (\<lambda>x. length (fst x)) (tl (split_into_sentences r)))"
      by (simp add: length_concat comp_def)
    also have "\<dots> \<le> sum_list (map (\<lambda>x. length (fst x)) (split_into_sentences r))"
      by (rule sum_tl_le)
    also have "\<dots> \<le> length r" by (rule split_into_sentences_total)
    finally show ?thesis
      using lr length_strip_le [of "concat (map fst (tl (split_into_sentences r)))"] by linarith
  qed
  have b: "int (length (strip r)) \<le> ov" using lr length_strip_le [of r] by linarith
  have c: "int (length (strip (drop k r))) \<le> ov" for k
    using lr length_strip_le [of "drop k r"] by simp
  show ?thesis
    using False a b c
    by (simp add: get_overlap_text_def Let_def len_def r_def [symmetric] split: option.splits)
qed

text \<open>The sizes of the chunks of \<open>_split_at_sentences\<close> and of \<open>_semantic_chunk\<close>.\<close>

lemma sentences_from_nonblank:
  "list_all (\<lambda>x. \<not> blank (fst x)) (fst (sentences_from s le es))"
  by (induction es arbitrary: le) (simp_all add: Let_def split_def strip_empty_iff)

lemma split_into_sentences_nonblank:
  "\<not> blank s \<Longrightarrow> list_all (\<lambda>x. \<not> blank (fst x)) (split_into_sentences s)"
  using sentences_from_nonblank [of s 0 "sentence_scan 0 0 s"]
  by (auto simp: split_into_sentences_def Let_def split_def strip_empty_iff)

lemma split_into_sentences_nonempty: "split_into_sentences s \<noteq> []"
  by (auto simp: split_into_sentences_def Let_def split_def)

lemma sentence_step_inv:
  assumes inv: "sent_inv (max 0 mn + 2 * mx) mx st"
    and nb: "\<not> blank (fst x)" and fit: "len (fst x) \<le> mx"
  shows "sent_inv (max 0 mn + 2 * mx) mx (sentence_step mx mn st x)
         \<and> fst (snd (sentence_step mx mn st x)) \<noteq> []"
proof -
  let ?B = "max 0 mn + 2 * mx"
  obtain chunks cur cs where st: "st = (chunks, cur, cs)" by (cases st) auto
  obtain s a b where x: "x = (s, a, b)" by (cases x) auto
  have nbs: "\<not> blank s" and fits: "len s \<le> mx" using nb fit by (simp_all add: x)
  have sne: "strip s \<noteq> []" "s \<noteq> []" using nbs by (auto simp: strip_empty_iff blank_def)
  have ch: "list_all (\<lambda>c. len (fst c) \<le> ?B) chunks" using inv by (simp add: sent_inv_def st)
  have tr: "int (trail s) < mx" using trail_less [OF nbs] fits by (simp add: len_def)
  have mxpos: "0 < mx" using tr by linarith
  have seed: "int (length (lstrip s)) \<le> ?B"
    using length_lstrip_le [of s] fits mxpos by (simp add: len_def)
  show ?thesis
  proof (cases "cur = []")
    case True
    thus ?thesis using sne nbs tr ch seed by (simp add: sentence_step_def st x sent_inv_def)
  next
    case False
    hence c: "\<not> blank cur" "int (length (lstrip cur)) \<le> ?B" "int (trail cur) < mx"
      using inv by (simp_all add: sent_inv_def st)
    let ?j = "cur @ s"
    have jnb: "\<not> blank ?j" using nbs by (simp add: blank_def)
    have jtr: "int (trail ?j) < mx" using trail_append [OF nbs, of cur] tr by simp
    have jl: "length (lstrip ?j) = length (lstrip cur) + length s"
      using lstrip_append [OF c(1), of s] by simp
    show ?thesis
    proof (cases "mx < len cur + len s")
      case over: True
      show ?thesis
      proof (cases "mn \<le> len (strip cur)")
        case True
        have closed: "len (strip cur) \<le> ?B"
          using length_strip_le_lstrip [of cur] c(2) by (simp add: len_def)
        show ?thesis
          using False over True ch closed seed nbs tr sne
          by (simp add: sentence_step_def st x sent_inv_def)
      next
        case small: False
        have "int (length (lstrip cur)) = len (strip cur) + int (trail cur)"
          using length_lstrip_eq [OF c(1)] by (simp add: len_def)
        hence "int (length (lstrip ?j)) \<le> ?B"
          using jl small c(3) fits by (simp add: len_def)
        thus ?thesis
          using False over small ch jnb jtr sne
          by (simp add: sentence_step_def st x sent_inv_def)
      qed
    next
      case fitsj: False
      have "int (length (lstrip ?j)) \<le> ?B"
        using length_lstrip_le [of ?j] fitsj mxpos by (simp add: len_def)
      thus ?thesis
        using False fitsj ch jnb jtr sne
        by (simp add: sentence_step_def st x sent_inv_def)
    qed
  qed
qed

lemma foldl_sentence_step_inv:
  "sent_inv (max 0 mn + 2 * mx) mx st \<Longrightarrow>
   list_all (\<lambda>x. \<not> blank (fst x) \<and> len (fst x) \<le> mx) xs \<Longrightarrow>
   sent_inv (max 0 mn + 2 * mx) mx (foldl (sentence_step mx mn) st xs)
   \<and> (xs \<noteq> [] \<longrightarrow> fst (snd (foldl (sentence_step mx mn) st xs)) \<noteq> [])"
proof (induction xs arbitrary: st rule: rev_induct)
  case Nil
  then show ?case by simp
next
  case (snoc x xs)
  have i: "sent_inv (max 0 mn + 2 * mx) mx (foldl (sentence_step mx mn) st xs)"
    using snoc by simp
  show ?case
    using sentence_step_inv [OF i, of x] snoc.prems(2) by simp
qed

lemma split_at_sentences_sizes:
  assumes nb: "\<not> blank s"
    and fit: "list_all (\<lambda>x. len (fst x) \<le> mx) (split_into_sentences s)"
  shows "list_all (\<lambda>c. len (strip (fst c)) \<le> max 0 mn + 2 * mx) (split_at_sentences s mx mn)
         \<and> split_at_sentences s mx mn \<noteq> []"
proof -
  let ?B = "max 0 mn + 2 * mx"
  let ?xs = "split_into_sentences s"
  let ?st = "foldl (sentence_step mx mn) ([], [], 0) ?xs"
  obtain chunks cur cs where st: "?st = (chunks, cur, cs)" by (cases ?st) auto
  have ok: "list_all (\<lambda>x. \<not> blank (fst x) \<and> len (fst x) \<le> mx) ?xs"
    using split_into_sentences_nonblank [OF nb] fit by (simp add: list_all_iff)
  have "sent_inv ?B mx ([], [], 0)" by (simp add: sent_inv_def)
  hence inv: "sent_inv ?B mx ?st \<and> (?xs \<noteq> [] \<longrightarrow> fst (snd ?st) \<noteq> [])"
    using ok by (rule foldl_sentence_step_inv)
  hence cne: "cur \<noteq> []" using split_into_sentences_nonempty [of s] st by simp
  have c: "\<not> blank cur" "int (length (lstrip cur)) \<le> ?B" and
    ch: "list_all (\<lambda>c. len (fst c) \<le> ?B) chunks"
    using inv cne by (simp_all add: sent_inv_def st)
  have ch': "list_all (\<lambda>c. len (strip (fst c)) \<le> ?B) chunks"
  proof -
    have "len (strip (fst c)) \<le> ?B" if "c \<in> set chunks" for c
    proof -
      have "len (fst c) \<le> ?B" using ch that by (simp add: list_all_iff)
      thus ?thesis using length_strip_le [of "fst c"] by (simp add: len_def)
    qed
    thus ?thesis by (simp add: list_all_iff)
  qed
  have last: "len (strip (strip cur)) \<le> ?B"
    using length_strip_le [of "strip cur"] length_strip_le_lstrip [of cur] c(2)
    by (simp add: len_def)
  have sne: "strip cur \<noteq> []" using c(1) by (simp add: strip_empty_iff)
  show ?thesis
    using st ch' last sne by (simp add: split_at_sentences_def Let_def)
qed

lemma chunk_step_size_inv_fit:
  assumes inv: "size_inv (max 0 ov + max 0 mn + 2 * mx + 2) mx st"
    and nb: "\<not> blank (block_text b)" and fit: "len (block_text b) \<le> mx"
  shows "size_inv (max 0 ov + max 0 mn + 2 * mx + 2) mx (chunk_step mx mn ov st b)
         \<and> fst (snd (chunk_step mx mn ov st b)) \<noteq> []"
proof -
  let ?B = "max 0 ov + max 0 mn + 2 * mx + 2"
  let ?t = "block_text b"
  obtain chunks cur cs where st: "st = (chunks, cur, cs)" by (cases st) auto
  have ch: "list_all (\<lambda>c. len (strip (fst c)) \<le> ?B) chunks"
    using inv by (simp add: size_inv_def st)
  have tr: "int (trail ?t) < mx" using trail_less [OF nb] fit by (simp add: len_def)
  have mxpos: "0 < mx" using tr by linarith
  have big: "\<not> mx < len ?t" using fit by simp
  have tne: "?t \<noteq> []" using nb by (auto simp: blank_def)
  show ?thesis
  proof (cases "cur = []")
    case True
    have "int (length (lstrip ?t)) \<le> ?B"
      using length_lstrip_le [of ?t] fit mxpos by (simp add: len_def)
    thus ?thesis
      using True big nb tr ch tne by (simp add: chunk_step_def st size_inv_def)
  next
    case False
    hence c: "\<not> blank cur" "int (length (lstrip cur)) \<le> ?B" "int (trail cur) < mx"
      using inv by (simp_all add: size_inv_def st)
    let ?j = "cur @ [NL, NL] @ ?t"
    have jnb: "\<not> blank ?j" using nb by (simp add: blank_def)
    have jtr: "int (trail ?j) < mx"
      using trail_append [OF nb, of "cur @ [NL, NL]"] tr by simp
    have jl: "length (lstrip ?j) = length (lstrip cur) + 2 + length ?t"
      using lstrip_append [OF c(1), of "[NL, NL] @ ?t"] by simp
    show ?thesis
    proof (cases "mx < len cur + len ?t + 2")
      case over: True
      show ?thesis
      proof (cases "mn \<le> len (strip cur)")
        case True
        let ?o = "get_overlap_text cur ov"
        have closed: "len (strip cur) \<le> ?B"
          using length_strip_le_lstrip [of cur] c(2) by (simp add: len_def)
        have seed1: "int (length (lstrip ?t)) \<le> ?B"
          using length_lstrip_le [of ?t] fit mxpos by (simp add: len_def)
        have seed2: "int (length (lstrip (?o @ [NL, NL] @ ?t))) \<le> ?B"
          using length_lstrip_le [of "?o @ [NL, NL] @ ?t"] fit mxpos
            length_get_overlap_text [of cur ov]
          by (simp add: len_def)
        have nb2: "\<not> blank (?o @ [NL, NL] @ ?t)" using nb by (simp add: blank_def)
        have tr2: "int (trail (?o @ [NL, NL] @ ?t)) < mx"
          using trail_append [OF nb, of "?o @ [NL, NL]"] tr by simp
        show ?thesis
          using False big over True ch closed seed1 seed2 nb nb2 tr tr2 tne
          by (simp add: chunk_step_def st size_inv_def Let_def)
      next
        case small: False
        have "int (length (lstrip cur)) = len (strip cur) + int (trail cur)"
          using length_lstrip_eq [OF c(1)] by (simp add: len_def)
        hence "int (length (lstrip ?j)) \<le> ?B"
          using jl small c(3) fit by (simp add: len_def)
        thus ?thesis
          using False big over small ch jnb jtr
          by (simp add: chunk_step_def st size_inv_def)
      qed
    next
      case fits: False
      have "int (length (lstrip ?j)) \<le> ?B"
        using length_lstrip_le [of ?j] fits mxpos by (simp add: len_def)
      thus ?thesis
        using False big fits ch jnb jtr
        by (simp add: chunk_step_def st size_inv_def)
    qed
  qed
qed

lemma chunk_step_size_inv_split:
  assumes inv: "size_inv (max 0 ov + max 0 mn + 2 * mx + 2) mx st"
    and nb: "\<not> blank (block_text b)" and big: "mx < len (block_text b)"
    and ty: "block_type b \<noteq> Code" "block_type b \<noteq> Table"
    and fit: "list_all (\<lambda>x. len (fst x) \<le> mx) (split_into_sentences (block_text b))"
  shows "size_inv (max 0 ov + max 0 mn + 2 * mx + 2) mx (chunk_step mx mn ov st b)
         \<and> fst (chunk_step mx mn ov st b) \<noteq> []"
proof -
  let ?B = "max 0 ov + max 0 mn + 2 * mx + 2"
  obtain chunks cur cs where st: "st = (chunks, cur, cs)" by (cases st) auto
  have ch: "list_all (\<lambda>c. len (strip (fst c)) \<le> ?B) chunks"
    using inv by (simp add: size_inv_def st)
  have sub: "list_all (\<lambda>c. len (strip (fst c)) \<le> max 0 mn + 2 * mx)
               (split_at_sentences (block_text b) mx mn)"
    "split_at_sentences (block_text b) mx mn \<noteq> []"
    using split_at_sentences_sizes [OF nb fit, of mn] by simp_all
  have sub': "list_all (\<lambda>c. len (strip (fst c)) \<le> ?B)
                (map (shift_chunk (start_offset b)) (split_large_block b mx mn))"
  proof -
    have "len (strip (fst (shift_chunk (start_offset b) c))) \<le> ?B"
      if "c \<in> set (split_at_sentences (block_text b) mx mn)" for c
    proof -
      have "len (strip (fst c)) \<le> max 0 mn + 2 * mx" using sub(1) that by (simp add: list_all_iff)
      thus ?thesis by (cases c) (simp add: shift_chunk_def)
    qed
    thus ?thesis using ty by (simp add: split_large_block_def list_all_iff)
  qed
  have ne: "split_large_block b mx mn \<noteq> []" using ty sub(2) by (simp add: split_large_block_def)
  have cur: "strip cur \<noteq> [] \<Longrightarrow> len (strip cur) \<le> ?B"
  proof -
    assume "strip cur \<noteq> []"
    hence "cur \<noteq> []" by (auto simp: strip_def lstrip_def rstrip_def)
    hence "int (length (lstrip cur)) \<le> ?B" using inv by (simp add: size_inv_def st)
    thus ?thesis using length_strip_le_lstrip [of cur] by (simp add: len_def)
  qed
  have keep: "strip cur = [] \<Longrightarrow> cur = []"
    using inv by (auto simp: size_inv_def st strip_empty_iff)
  show ?thesis
    using big ch sub' ne cur keep
    by (auto simp: chunk_step_def st size_inv_def Let_def)
qed

lemma chunk_step_size_inv:
  assumes "size_inv (max 0 ov + max 0 mn + 2 * mx + 2) mx st" and "unit_ok mx b"
  shows "size_inv (max 0 ov + max 0 mn + 2 * mx + 2) mx (chunk_step mx mn ov st b)
         \<and> (fst (chunk_step mx mn ov st b) \<noteq> [] \<or> fst (snd (chunk_step mx mn ov st b)) \<noteq> [])"
proof (cases "len (block_text b) \<le> mx")
  case True
  thus ?thesis
    using chunk_step_size_inv_fit [OF assms(1), of b] assms(2)
    by (simp add: unit_ok_def strip_empty_iff)
next
  case False
  thus ?thesis
    using chunk_step_size_inv_split [OF assms(1), of b] assms(2)
    by (simp add: unit_ok_def strip_empty_iff)
qed

lemma foldl_chunk_step_size_inv:
  "size_inv (max 0 ov + max 0 mn + 2 * mx + 2) mx st \<Longrightarrow> list_all (unit_ok mx) bs \<Longrightarrow>
   size_inv (max 0 ov + max 0 mn + 2 * mx + 2) mx (foldl (chunk_step mx mn ov) st bs)
   \<and> (bs \<noteq> [] \<longrightarrow> fst (foldl (chunk_step mx mn ov) st bs) \<noteq> []
                   \<or> fst (snd (foldl (chunk_step mx mn ov) st bs)) \<noteq> [])"
proof (induction bs arbitrary: st rule: rev_induct)
  case Nil
  then show ?case by simp
next
  case (snoc b bs)
  have i: "size_inv (max 0 ov + max 0 mn + 2 * mx + 2) mx (foldl (chunk_step mx mn ov) st bs)"
    using snoc by simp
  show ?case
    using chunk_step_size_inv [OF i, of b] snoc.prems(2) by simp
qed

lemma semantic_chunk_sizes:
  assumes ok: "list_all (unit_ok mx) (parse_semantic_blocks s)"
    and ne: "parse_semantic_blocks s \<noteq> []"
  shows "list_all (\<lambda>c. len (strip (fst c)) \<le> max 0 ov + max 0 mn + 2 * mx + 2)
           (semantic_chunk s mx mn ov)"
proof -
  let ?B = "max 0 ov + max 0 mn + 2 * mx + 2"
  let ?st = "foldl (chunk_step mx mn ov) ([], [], 0) (parse_semantic_blocks s)"
  obtain chunks cur cs where st: "?st = (chunks, cur, cs)" by (cases ?st) auto
  have "size_inv ?B mx ([], [], 0)" by (simp add: size_inv_def)
  hence inv: "size_inv ?B mx ?st \<and> (chunks \<noteq> [] \<or> cur \<noteq> [])"
    using foldl_chunk_step_size_inv [OF _ ok, of ov mn "([], [], 0)"] ne st by simp
  have ch: "list_all (\<lambda>c. len (strip (fst c)) \<le> ?B) chunks"
    using inv by (simp add: size_inv_def st)
  have c: "cur \<noteq> [] \<Longrightarrow> strip cur \<noteq> [] \<and> len (strip cur) \<le> ?B"
  proof -
    assume "cur \<noteq> []"
    hence "\<not> blank cur" "int (length (lstrip cur)) \<le> ?B"
      using inv by (simp_all add: size_inv_def st)
    thus ?thesis using length_strip_le_lstrip [of cur] by (simp add: len_def strip_empty_iff)
  qed
  have c0: "cur = [] \<Longrightarrow> strip cur = []" by (simp add: strip_def lstrip_def rstrip_def)
  have "s \<noteq> []" using ne by (auto simp: parse_semantic_blocks_def Let_def blocks_loop.simps)
  thus ?thesis
    using ne st ch c c0 inv by (cases "cur = []") (simp_all add: semantic_chunk_def Let_def)
qed

text \<open>The sizes of the payloads, and the filter on the token count.\<close>

lemma unit_ok_pos: "unit_ok mx b \<Longrightarrow> 0 < mx"
proof -
  assume a: "unit_ok mx b"
  hence nb: "\<not> blank (block_text b)" by (simp add: unit_ok_def strip_empty_iff)
  show ?thesis
  proof (cases "len (block_text b) \<le> mx")
    case True
    thus ?thesis using trail_less [OF nb] by (simp add: len_def)
  next
    case False
    hence fit: "list_all (\<lambda>x. len (fst x) \<le> mx) (split_into_sentences (block_text b))"
      using a by (simp add: unit_ok_def)
    obtain x xs where xs: "split_into_sentences (block_text b) = x # xs"
      using split_into_sentences_nonempty [of "block_text b"]
      by (cases "split_into_sentences (block_text b)") auto
    have "\<not> blank (fst x)" using split_into_sentences_nonblank [OF nb] xs by simp
    moreover have "len (fst x) \<le> mx" using fit xs by simp
    ultimately show ?thesis using trail_less [of "fst x"] by (simp add: len_def)
  qed
qed

lemma units_fit_pos: "units_fit mx body \<Longrightarrow> 0 < mx"
proof -
  assume a: "units_fit mx body"
  then obtain b bs where bb: "parse_semantic_blocks body = b # bs"
    by (cases "parse_semantic_blocks body") (auto simp: units_fit_def)
  have "unit_ok mx b" using a bb by (simp add: units_fit_def)
  thus ?thesis by (rule unit_ok_pos)
qed

lemma payload_step_sizes:
  "list_all (\<lambda>c. char_count c \<le> B) (fst st) \<Longrightarrow> len (strip (fst ch)) \<le> B \<Longrightarrow>
   list_all (\<lambda>c. char_count c \<le> B) (fst (payload_step p h t fid pm sp off n st ch))"
  by (cases st; cases ch) (simp add: payload_step_def Let_def)

lemma foldl_payload_step_sizes:
  "list_all (\<lambda>c. char_count c \<le> B) (fst st) \<Longrightarrow>
   list_all (\<lambda>ch. len (strip (fst ch)) \<le> B) chs \<Longrightarrow>
   list_all (\<lambda>c. char_count c \<le> B) (fst (foldl (payload_step p h t fid pm sp off n) st chs))"
  by (induction chs arbitrary: st) (simp_all add: payload_step_sizes)

lemma build_section_step_sizes:
  assumes "list_all (\<lambda>c. char_count c \<le> max 0 ov + max 0 mn + 2 * mx + 2) (fst st)"
    and "strip (fst (snd sec)) = [] \<or> units_fit mx (fst (snd sec))"
  shows "list_all (\<lambda>c. char_count c \<le> max 0 ov + max 0 mn + 2 * mx + 2)
           (fst (build_section_step p h t fid pm mx mn ov st sec))"
proof -
  obtain sp body start where sec: "sec = (sp, body, start)" by (cases sec) auto
  show ?thesis
  proof (cases "strip body = []")
    case True
    then show ?thesis using assms(1) by (simp add: build_section_step_def sec)
  next
    case False
    hence bf: "units_fit mx body" using assms(2) by (simp add: sec)
    have "list_all (\<lambda>c. len (strip (fst c)) \<le> max 0 ov + max 0 mn + 2 * mx + 2)
            (semantic_chunk body mx mn ov)"
      using bf by (intro semantic_chunk_sizes) (simp_all add: units_fit_def)
    then show ?thesis
      using False assms(1)
      by (simp add: build_section_step_def sec Let_def foldl_payload_step_sizes)
  qed
qed

lemma foldl_build_section_step_sizes:
  "list_all (\<lambda>c. char_count c \<le> max 0 ov + max 0 mn + 2 * mx + 2) (fst st) \<Longrightarrow>
   list_all (\<lambda>sec. strip (fst (snd sec)) = [] \<or> units_fit mx (fst (snd sec))) secs \<Longrightarrow>
   list_all (\<lambda>c. char_count c \<le> max 0 ov + max 0 mn + 2 * mx + 2)
     (fst (foldl (build_section_step p h t fid pm mx mn ov) st secs))"
  by (induction secs arbitrary: st) (simp_all add: build_section_step_sizes)

lemma payload_step_same:
  "strip (fst (snd sec)) = [] \<Longrightarrow> build_section_step p h t fid pm mx mn ov st sec = st"
  by (cases sec) (simp add: build_section_step_def)

lemma foldl_build_section_step_same:
  "list_all (\<lambda>sec. strip (fst (snd sec)) = []) secs \<Longrightarrow>
   foldl (build_section_step p h t fid pm mx mn ov) st secs = st"
  by (induction secs arbitrary: st) (simp_all add: payload_step_same)

lemma sections_fit_pos:
  assumes "list_all (\<lambda>sec. strip (fst (snd sec)) = [] \<or> units_fit mx (fst (snd sec))) secs"
    and "fst (foldl (build_section_step p h t fid pm mx mn ov) ([], 0) secs) \<noteq> []"
  shows "0 < mx"
proof (rule ccontr)
  assume n: "\<not> 0 < mx"
  have "list_all (\<lambda>sec. strip (fst (snd sec)) = []) secs"
    using assms(1) n units_fit_pos [of mx] by (auto simp: list_all_iff)
  hence "foldl (build_section_step p h t fid pm mx mn ov) ([], 0) secs = ([], 0)"
    by (rule foldl_build_section_step_same)
  thus False using assms(2) by simp
qed

lemma foldl_payload_step_filter:
  "\<exists>new. foldl (payload_step p h t fid pm sp off n) (ps, ord) chs = (ps @ new, ord + length new)
         \<and> length new \<le> length chs
         \<and> list_all (\<lambda>c. n \<le> 1 \<or> min_chunk_tokens p \<le> token_count c) new"
proof (induction chs arbitrary: ps ord)
  case Nil
  then show ?case by simp
next
  case (Cons ch chs)
  obtain s rs re where ch: "ch = (s, rs, re)" by (cases ch) auto
  show ?case
  proof (cases "strip s = [] \<or> (token_count_of p (strip s) < min_chunk_tokens p \<and> 1 < n)")
    case True
    hence "payload_step p h t fid pm sp off n (ps, ord) ch = (ps, ord)"
      by (auto simp: payload_step_def ch Let_def)
    then show ?thesis using Cons.IH [of ps ord] by auto
  next
    case False
    then obtain q where q: "payload_step p h t fid pm sp off n (ps, ord) ch = (ps @ [q], ord + 1)"
      "n \<le> 1 \<or> min_chunk_tokens p \<le> token_count q"
      by (auto simp: payload_step_def ch Let_def)
    obtain new where n:
      "foldl (payload_step p h t fid pm sp off n) (ps @ [q], ord + 1) chs
         = ((ps @ [q]) @ new, (ord + 1) + length new)"
      "length new \<le> length chs"
      "list_all (\<lambda>c. n \<le> 1 \<or> min_chunk_tokens p \<le> token_count c) new"
      using Cons.IH [of "ps @ [q]" "ord + 1"] by auto
    show ?thesis
      apply (rule exI [of _ "q # new"])
      using q n by simp
  qed
qed

lemma build_section_step_filter:
  "\<exists>new. build_section_step p h t fid pm mx mn ov (ps, ord) sec = (ps @ new, ord + length new)
         \<and> (length new \<le> 1 \<or> list_all (\<lambda>c. min_chunk_tokens p \<le> token_count c) new)"
proof -
  obtain sp body start where sec: "sec = (sp, body, start)" by (cases sec) auto
  show ?thesis
  proof (cases "strip body = []")
    case True
    then show ?thesis by (simp add: build_section_step_def sec)
  next
    case False
    let ?cs = "semantic_chunk body mx mn ov"
    obtain new where n:
      "foldl (payload_step p h t fid pm sp start (length ?cs)) (ps, ord) ?cs
         = (ps @ new, ord + length new)"
      "length new \<le> length ?cs"
      "list_all (\<lambda>c. length ?cs \<le> 1 \<or> min_chunk_tokens p \<le> token_count c) new"
      using foldl_payload_step_filter [of p h t fid pm sp start "length ?cs" ps ord ?cs] by auto
    have "length new \<le> 1 \<or> list_all (\<lambda>c. min_chunk_tokens p \<le> token_count c) new"
    proof (cases "length ?cs \<le> 1")
      case True
      then show ?thesis using n(2) by simp
    next
      case False
      then show ?thesis using n(3) by (simp add: list_all_iff)
    qed
    then show ?thesis
      using False n(1) by (auto simp: build_section_step_def sec Let_def)
  qed
qed

text \<open>
  C4, amended, in three parts.
  \<^item> In the result of \<open>build\<close>, a chunk shorter than the minimum is followed only by a
    chunk with which it would exceed the maximum (the two sizes plus the two separator
    characters), and a short last chunk of several is preceded by such a chunk.
  \<^item> If every section that is not blank parses into blocks that are not blank and are no
    longer than the maximum, or are paragraphs or lists that split into sentences no
    longer than the maximum, then no returned chunk is longer than twice the maximum plus
    the minimum, the overlap and 2.
  \<^item> Before the merge pass, the step of \<open>build\<close> for one section, from any state and with
    any sizes, appends chunks of which there is at most one, or all have at least the
    minimum token count.
\<close>

theorem build_chunk_size_bounds:
  "(let ns = map char_count (build p hexdigest now fid t page_mapping ct ot);
        mn = min_chunk_chars p;
        mx = max_chunk_chars p ct;
        ov = overlap_chars_of p ot
    in successively (\<lambda>a b. a < mn \<longrightarrow> mx < a + b + 2) ns
       \<and> (1 < length ns \<longrightarrow> last ns < mn \<longrightarrow> mx < last (butlast ns) + last ns + 2)
       \<and> (list_all (\<lambda>sec. strip (fst (snd sec)) = [] \<or> units_fit mx (fst (snd sec)))
                    (split_sections p t)
            \<longrightarrow> list_all (\<lambda>n. n \<le> max 0 ov + max 0 mn + 2 * mx + 2) ns))
   \<and> (\<exists>new. build_section_step p hexdigest now fid page_mapping mx' mn' ov' (ps, ord) sec
                = (ps @ new, ord + length new)
             \<and> (length new \<le> 1 \<or> list_all (\<lambda>c. min_chunk_tokens p \<le> token_count c) new))"
proof -
  let ?mx = "max_chunk_chars p ct" and ?mn = "min_chunk_chars p" and ?ov = "overlap_chars_of p ot"
  let ?B = "max 0 ?ov + max 0 ?mn + 2 * ?mx + 2"
  let ?cs = "build_payloads p hexdigest now fid t page_mapping ct ot"
  let ?ns = "map char_count (build p hexdigest now fid t page_mapping ct ot)"
  have ab: "successively (\<lambda>a b. a < ?mn \<longrightarrow> ?mx < a + b + 2) ?ns
       \<and> (1 < length ?ns \<longrightarrow> last ?ns < ?mn \<longrightarrow> ?mx < last (butlast ?ns) + last ?ns + 2)
       \<and> list_all (\<lambda>n. 2 * n \<le> 3 * ?mx \<or> n \<in> char_count ` set ?cs) ?ns"
  proof (cases "t = [] \<or> strip t = []")
    case True
    then show ?thesis by (simp add: build_def)
  next
    case False
    have b: "build p hexdigest now fid t page_mapping ct ot
             = merge_small_chunks p ?cs ?mn ?mx page_mapping"
      using False by (simp add: build_def)
    have t: "tight ?mn ?mx = (\<lambda>a b. a < ?mn \<longrightarrow> ?mx < a + b + 2)"
      by (simp add: fun_eq_iff tight_def)
    have cons: "list_all consistent ?cs" by (rule build_payloads_consistent)
    show ?thesis
      using merge_small_chunks_counts [OF cons, where mn = ?mn and mx = ?mx and p = p
              and pm = page_mapping]
      unfolding b t tight_def
      by (simp add: add.commute)
  qed
  have d: "list_all (\<lambda>n. n \<le> ?B) ?ns"
    if fit: "list_all (\<lambda>sec. strip (fst (snd sec)) = [] \<or> units_fit ?mx (fst (snd sec)))
               (split_sections p t)"
  proof (cases "?cs = []")
    case True
    hence "?ns = []" by (simp add: build_def merge_small_chunks_def)
    then show ?thesis by simp
  next
    case False
    have pos: "0 < ?mx"
      using sections_fit_pos [OF fit] False by (simp add: build_payloads_def)
    have sz: "list_all (\<lambda>c. char_count c \<le> ?B) ?cs"
      unfolding build_payloads_def
      by (rule foldl_build_section_step_sizes [OF _ fit]) simp
    have "n \<le> ?B" if "n \<in> set ?ns" for n
    proof -
      have "list_all (\<lambda>n. 2 * n \<le> 3 * ?mx \<or> n \<in> char_count ` set ?cs) ?ns"
        using ab by blast
      hence "2 * n \<le> 3 * ?mx \<or> n \<in> char_count ` set ?cs"
        using that unfolding list_all_iff by blast
      thus ?thesis
      proof
        assume "2 * n \<le> 3 * ?mx" thus ?thesis using pos by linarith
      next
        assume "n \<in> char_count ` set ?cs" thus ?thesis using sz by (auto simp: list_all_iff)
      qed
    qed
    thus ?thesis by (simp add: list_all_iff)
  qed
  show ?thesis
    using ab d build_section_step_filter [of p hexdigest now fid page_mapping mx' mn' ov' ps ord sec]
    unfolding Let_def by blast
qed

text \<open>
  The text of the first evaluation: its blocks fit, the short first chunk stays, and both
  chunks are within the bound, which is 594 here.
\<close>

lemma small_section_fits:
  "list_all (\<lambda>sec. strip (fst (snd sec)) = []
                   \<or> units_fit (max_chunk_chars (ChunkingPipeline_init None 64 0 20) None)
                        (fst (snd sec)))
     (split_sections (ChunkingPipeline_init None 64 0 20)
        (''# A\<newline>a'' @ replicate 90 NL @ ''b\<newline># B\<newline>'' @ replicate 250 CHR ''x''))"
  by code_simp

lemma default_overlap: "overlap_chars_of (ChunkingPipeline_init None 64 0 20) None = 0"
  by (simp add: overlap_chars_of_def target_overlap_tokens_def ChunkingPipeline_init_def)

theorem build_chunk_size_bounds_witness:
  "map char_count
     (build (ChunkingPipeline_init None 64 0 20) (\<lambda>s. s) 0 ''f''
        (''# A\<newline>a'' @ replicate 90 NL @ ''b\<newline># B\<newline>'' @ replicate 250 CHR ''x'')
        None None None) = [8, 254]
   \<and> (8::int) < min_chunk_chars (ChunkingPipeline_init None 64 0 20)
   \<and> max_chunk_chars (ChunkingPipeline_init None 64 0 20) None < 8 + 254 + 2
   \<and> list_all (\<lambda>sec. strip (fst (snd sec)) = []
                     \<or> units_fit (max_chunk_chars (ChunkingPipeline_init None 64 0 20) None)
                          (fst (snd sec)))
       (split_sections (ChunkingPipeline_init None 64 0 20)
          (''# A\<newline>a'' @ replicate 90 NL @ ''b\<newline># B\<newline>'' @ replicate 250 CHR ''x''))
   \<and> list_all (\<lambda>n. n \<le> 594)
       (map char_count
          (build (ChunkingPipeline_init None 64 0 20) (\<lambda>s. s) 0 ''f''
             (''# A\<newline>a'' @ replicate 90 NL @ ''b\<newline># B\<newline>'' @ replicate 250 CHR ''x'')
             None None None))"
  using build_chunk_size_bounds [of "ChunkingPipeline_init None 64 0 20" "\<lambda>s. s" 0 "''f''"
      "''# A\<newline>a'' @ replicate 90 NL @ ''b\<newline># B\<newline>'' @ replicate 250 CHR ''x''" None None None]
    small_section_fits
  unfolding small_section_eval default_sizes default_overlap Let_def
  by simp


subsection \<open>A wrong number of vectors\<close>

text \<open>
  C1, as stated, fails. One chunk is embedded, the client returns no vector for the batch
  of one, and the per-file pipeline ends with the file marked \<open>indexed\<close>:
  \<open>_store_artifact\<close> catches what \<open>_embed_chunks\<close> raises and goes on with no
  vectors.
\<close>

lemma example_batches:
  "embed_batches example_settings (art_chunks example_artifact) = [[''hello'']]"
  by (simp add: embed_batches_def embed_texts_def example_settings_def example_artifact_def
      example_chunk_def batches_of.simps strip_def lstrip_def rstrip_def is_space_def)

lemma example_embed_eval:
  "embed_chunks short_services example_settings [example_chunk] empty_world
   = (Inl (mismatch_message 0 1),
      empty_world\<lparr> stage_calls := [''Embedding batch 1/1''], encode_calls := [[''hello'']] \<rparr>)"
proof -
  have b: "embed_batches example_settings [example_chunk] = [[''hello'']]"
    using example_batches by (simp add: example_artifact_def)
  have t: "embed_texts [example_chunk] = [''hello'']"
    by (simp add: embed_texts_def example_chunk_def strip_def lstrip_def rstrip_def is_space_def)
  have n: "show_nat (Suc 0) = ''1''" by code_simp
  have "embed_chunks short_services example_settings [example_chunk] empty_world
        = embed_loop short_services example_settings 1 1 1 [[''hello'']] [] empty_world"
    by (simp add: embed_chunks_def b t)
  also have "\<dots> = (Inl (mismatch_message 0 1),
                    empty_world\<lparr> stage_calls := [''Embedding batch 1/1''],
                                  encode_calls := [[''hello'']] \<rparr>)"
    by (simp add: Let_def short_services_def example_settings_def py_prefix_def
        empty_world_def n)
  finally show ?thesis .
qed

theorem mismatch_marks_file_indexed:
  "encode short_services [''hello''] = Inr []
   \<and> encode_calls (snd (process_single_file short_services example_settings 2000000 ''f1''
                          (Inr example_artifact) False empty_world)) = [[''hello'']]
   \<and> map_option index_status
        (files (snd (process_single_file short_services example_settings 2000000 ''f1''
                       (Inr example_artifact) False empty_world)) ''f1'') = Some Indexed"
proof -
  have c: "art_chunks example_artifact = [example_chunk]"
    by (simp add: example_artifact_def)
  have i: "file_record_id (art_record example_artifact) = ''f1''"
    by (simp add: example_artifact_def example_record_def)
  have x: "files empty_world ''f1'' = None"
    by (simp add: empty_world_def)
  have r: "\<not> reuse_vectors example_settings None (art_record example_artifact) False"
    by (simp add: reuse_vectors_def)
  have s: "snd (store_artifact short_services example_settings 2000000 example_artifact False
                  empty_world)
           = replace_chunks ''f1'' [example_chunk]
               (upsert_file
                  ((art_record example_artifact)
                     \<lparr> file_metadata :=
                         (file_metadata (art_record example_artifact))\<lparr> vector_chunks := Some [] \<rparr>,
                       index_status := Indexed, error_reason := None, error_at := None \<rparr>)
                  (empty_world\<lparr> stage_calls := [''Embedding batch 1/1''],
                                encode_calls := [[''hello'']] \<rparr>))"
    by (simp add: store_artifact_def Let_def c i x r example_embed_eval previous_chunk_ids_def)
  have e0: "encode short_services [''hello''] = Inr []"
    by (simp add: short_services_def)
  show ?thesis
    by (simp add: process_single_file_def s e0 mark_file_indexed_def upsert_file_def
        replace_chunks_def i)
qed

text \<open>The loop stops with an error at a batch answered with a wrong count.\<close>

lemma embed_loop_mismatch:
  assumes "\<exists>b \<in> set batches. \<exists>vs. encode sv (map (py_prefix (embed_max_chars cfg)) b) = Inr vs
                                   \<and> length vs \<noteq> length b"
  shows "\<exists>raised. fst (embed_loop sv cfg tb np i batches acc w) = Inl raised"
  using assms
proof (induction batches arbitrary: i acc w)
  case Nil
  then show ?case by simp
next
  case (Cons batch rest)
  show ?case
  proof (cases "encode sv (map (py_prefix (embed_max_chars cfg)) batch)")
    case (Inl raised)
    then show ?thesis by (simp add: Let_def)
  next
    case (Inr response)
    show ?thesis
    proof (cases "length response = length batch")
      case False
      then show ?thesis using Inr by (simp add: Let_def)
    next
      case True
      then have "\<exists>b \<in> set rest. \<exists>vs. encode sv (map (py_prefix (embed_max_chars cfg)) b) = Inr vs
                                   \<and> length vs \<noteq> length b"
        using Cons.prems Inr by auto
      then show ?thesis using Cons.IH Inr True by (simp add: Let_def)
    qed
  qed
qed

lemma embed_loop_upserts:
  "upsert_calls (snd (embed_loop sv cfg tb np i batches acc w)) = upsert_calls w"
  by (induction batches arbitrary: i acc w) (simp_all add: Let_def split: sum.splits)

lemma embed_chunks_mismatch:
  assumes "\<exists>b \<in> set (embed_batches cfg chunks).
             \<exists>vs. encode sv (map (py_prefix (embed_max_chars cfg)) b) = Inr vs
                  \<and> length vs \<noteq> length b"
  shows "\<exists>raised. fst (embed_chunks sv cfg chunks w) = Inl raised"
proof -
  have "embed_texts chunks \<noteq> []"
  proof
    assume "embed_texts chunks = []"
    then have "embed_batches cfg chunks = []"
      by (simp add: embed_batches_def batches_of.simps)
    then show False using assms by simp
  qed
  then show ?thesis using embed_loop_mismatch [OF assms] by (simp add: embed_chunks_def)
qed

lemma embed_chunks_upserts: "upsert_calls (snd (embed_chunks sv cfg chunks w)) = upsert_calls w"
  by (simp add: embed_chunks_def embed_loop_upserts)

text \<open>
  C1, amended. If, outside the reuse fast path, the embedding client returns for a batch
  of the file a number of vectors different from the number of texts, the per-file
  pipeline issues no vector-store upsert for the file, writes its record with status
  \<open>indexed\<close>, no error reason and an empty list of vector-chunk ids, and counts the
  file as processed.
\<close>

theorem mismatch_leaves_file_indexed_without_vectors:
  assumes "\<not> reuse_vectors cfg (files w (file_record_id (art_record a))) (art_record a) forced"
    and "\<exists>b \<in> set (embed_batches cfg (art_chunks a)).
           \<exists>vs. encode sv (map (py_prefix (embed_max_chars cfg)) b) = Inr vs
                \<and> length vs \<noteq> length b"
    and "file_record_id (art_record a) = fid"
  shows "fst (process_single_file sv cfg now fid (Inr a) forced w)
       \<and> upsert_calls (snd (process_single_file sv cfg now fid (Inr a) forced w)) = upsert_calls w
       \<and> (\<exists>r. files (snd (process_single_file sv cfg now fid (Inr a) forced w)) fid = Some r
              \<and> index_status r = Indexed \<and> error_reason r = None \<and> error_at r = None
              \<and> vector_chunks (file_metadata r) = Some [])"
proof -
  obtain raised w1 where e: "embed_chunks sv cfg (art_chunks a) w = (Inl raised, w1)"
    using embed_chunks_mismatch [OF assms(2), of w]
    by (cases "embed_chunks sv cfg (art_chunks a) w") auto
  have u1: "upsert_calls w1 = upsert_calls w"
    using embed_chunks_upserts [of sv cfg "art_chunks a" w] e by simp
  show ?thesis
    using assms(1,3) e u1
    by (auto simp: process_single_file_def store_artifact_def Let_def mark_file_indexed_def
        upsert_file_def replace_chunks_def split: option.splits)
qed

lemma example_not_reused:
  "\<not> reuse_vectors example_settings (files empty_world (file_record_id (art_record example_artifact)))
        (art_record example_artifact) False"
  by (simp add: reuse_vectors_def empty_world_def)

lemma example_mismatch:
  "\<exists>b \<in> set (embed_batches example_settings (art_chunks example_artifact)).
     \<exists>vs. encode short_services (map (py_prefix (embed_max_chars example_settings)) b) = Inr vs
          \<and> length vs \<noteq> length b"
  unfolding example_batches by (simp add: short_services_def)

theorem mismatch_leaves_file_indexed_without_vectors_witness:
  "fst (process_single_file short_services example_settings 2000000 ''f1''
          (Inr example_artifact) False empty_world)
   \<and> upsert_calls (snd (process_single_file short_services example_settings 2000000 ''f1''
                          (Inr example_artifact) False empty_world)) = upsert_calls empty_world
   \<and> (\<exists>r. files (snd (process_single_file short_services example_settings 2000000 ''f1''
                         (Inr example_artifact) False empty_world)) ''f1'' = Some r
          \<and> index_status r = Indexed \<and> error_reason r = None \<and> error_at r = None
          \<and> vector_chunks (file_metadata r) = Some [])"
proof -
  have fid: "file_record_id (art_record example_artifact) = ''f1''"
    by (simp add: example_artifact_def example_record_def)
  show ?thesis
    by (rule mismatch_leaves_file_indexed_without_vectors
          [OF example_not_reused example_mismatch fid])
qed

subsection \<open>The reuse fast path\<close>

text \<open>
  C2. The record the per-file pipeline hands to the store stage is the one \<open>_scan_file\<close>
  has just built from the parser's metadata, to which it adds the keys \<open>chunk_strategy\<close>
  and the page data; no parser writes \<open>vector_chunks\<close>, which only \<open>_store_artifact\<close>
  sets. For such a record, and a stored record of the same file that has its checksum and
  chunk-strategy tag, an embedding vector and a non-empty list of chunk ids, with reuse
  enabled and refresh not forced, the store stage changes nothing but the file's record: it
  issues no embedding call and no vector-store upsert, and the record it writes has status
  \<open>indexed\<close>, no error reason or time, the stored embedding and its time, and the previous
  vector-chunk ids.
\<close>

theorem reuse_path_only_refreshes_record:
  assumes "files w (file_record_id (art_record a)) = Some e"
    and "vector_chunks (file_metadata (art_record a)) = None"
    and "checksum_sha256 e = checksum_sha256 (art_record a)"
    and "chunk_strategy (file_metadata e) = chunk_strategy (file_metadata (art_record a))"
    and "embedding_vector e = Some v"
    and "vector_chunks (file_metadata e) = Some ids" and "ids \<noteq> []"
    and "reuse_embeddings cfg" and "\<not> refresh_embeddings"
  shows "snd (store_artifact sv cfg now a refresh_embeddings w)
           = w\<lparr> files := (files w)(file_record_id (art_record a)
                                     \<mapsto> reused_record e (art_record a)) \<rparr>
       \<and> encode_calls (snd (store_artifact sv cfg now a refresh_embeddings w)) = encode_calls w
       \<and> upsert_calls (snd (store_artifact sv cfg now a refresh_embeddings w)) = upsert_calls w
       \<and> delete_calls (snd (store_artifact sv cfg now a refresh_embeddings w)) = delete_calls w
       \<and> chunk_rows (snd (store_artifact sv cfg now a refresh_embeddings w)) = chunk_rows w
       \<and> index_status (reused_record e (art_record a)) = Indexed
       \<and> error_reason (reused_record e (art_record a)) = None
       \<and> error_at (reused_record e (art_record a)) = None
       \<and> embedding_vector (reused_record e (art_record a)) = Some v
       \<and> embedding_determined_at (reused_record e (art_record a)) = embedding_determined_at e
       \<and> vector_chunks (file_metadata (reused_record e (art_record a))) = Some ids"
proof -
  have r: "reuse_vectors cfg (Some e) (art_record a) refresh_embeddings"
    using assms by (simp add: reuse_vectors_def previous_chunk_ids_def truthy_def)
  have s: "snd (store_artifact sv cfg now a refresh_embeddings w)
           = w\<lparr> files := (files w)(file_record_id (art_record a)
                                     \<mapsto> reused_record e (art_record a)) \<rparr>"
    using r assms(1)
    by (simp add: store_artifact_def Let_def upsert_file_def reused_record_def)
  show ?thesis
    unfolding s using assms(2,5,6) by (simp add: reused_record_def)
qed

lemma stored_world_facts:
  "files stored_world (file_record_id (art_record example_artifact)) = Some example_existing"
  "vector_chunks (file_metadata (art_record example_artifact)) = None"
  "checksum_sha256 example_existing = checksum_sha256 (art_record example_artifact)"
  "chunk_strategy (file_metadata example_existing)
     = chunk_strategy (file_metadata (art_record example_artifact))"
  "embedding_vector example_existing = Some [Float64 0, Float64 1]"
  "vector_chunks (file_metadata example_existing) = Some [''c0'']"
  "[''c0''] \<noteq> []"
  "reuse_embeddings example_settings"
  "\<not> False"
  by (simp_all add: stored_world_def empty_world_def example_artifact_def example_record_def
      example_existing_def example_settings_def)

theorem reuse_path_only_refreshes_record_witness:
  "encode_calls (snd (store_artifact short_services example_settings 2000000 example_artifact
                        False stored_world)) = encode_calls stored_world
   \<and> upsert_calls (snd (store_artifact short_services example_settings 2000000 example_artifact
                          False stored_world)) = upsert_calls stored_world
   \<and> map_option (\<lambda>r. (index_status r, error_reason r, embedding_vector r,
                       vector_chunks (file_metadata r)))
        (files (snd (store_artifact short_services example_settings 2000000 example_artifact
                       False stored_world)) ''f1'')
      = Some (Indexed, None, Some [Float64 0, Float64 1], Some [''c0''])"
  using reuse_path_only_refreshes_record [OF stored_world_facts,
          of short_services 2000000]
  by (simp add: example_artifact_def example_record_def)

subsection \<open>Change detection\<close>

text \<open>
  C6, as stated, fails. A candidate whose \<open>stat\<close> raises is selected, though it is not in
  the failed list, has a stored record with a checksum, and there is no modification time
  or size of the filesystem to differ from.
\<close>

theorem unreadable_file_is_selected:
  "''/docs/a.txt'' \<in> set (paths_to_refresh (\<lambda>p. ''f1'') (\<lambda>p. None)
                              (\<lambda>fid. Some example_existing) example_folder
                              [''/docs/a.txt''] False)
   \<and> \<not> (''/docs/a.txt'' \<in> set (map failed_path (failed_files example_folder))
        \<or> (\<lambda>fid. Some example_existing) ((\<lambda>p. ''f1'') ''/docs/a.txt'') = None
        \<or> (\<exists>existing st.
              (\<lambda>fid. Some example_existing) ((\<lambda>p. ''f1'') ''/docs/a.txt'') = Some existing
              \<and> (\<lambda>p. None) ''/docs/a.txt'' = Some st
              \<and> (1000000 \<le> \<bar>st_mtime st - modified_at existing\<bar>
                   \<or> file_size existing \<noteq> st_size st))
        \<or> (\<exists>existing.
              (\<lambda>fid. Some example_existing) ((\<lambda>p. ''f1'') ''/docs/a.txt'') = Some existing
              \<and> checksum_missing existing))"
  by (simp add: paths_to_refresh_def example_folder_def Let_def checksum_missing_def
      example_existing_def example_record_def)

lemma refresh_loop_filter:
  "refresh_loop fingerprint stat get_file failed_paths paths
   = filter (\<lambda>p. p \<in> set failed_paths
                 \<or> get_file (fingerprint p) = None
                 \<or> stat p = None
                 \<or> (\<exists>existing st. get_file (fingerprint p) = Some existing \<and> stat p = Some st
                       \<and> (1000000 \<le> \<bar>st_mtime st - modified_at existing\<bar>
                            \<or> file_size existing \<noteq> st_size st
                            \<or> checksum_missing existing))) paths"
  by (induction paths) (auto simp: Let_def split: option.splits)

text \<open>
  C6, amended. In a refresh that is not forced, change detection selects a candidate if
  and only if it is in the folder's failed list, or no record is stored for its path hash,
  or the file cannot be read by \<open>stat\<close>, or the stored modification time differs from
  the filesystem's by at least one second, or the stored size differs from the
  filesystem's, or the stored checksum is missing; the selected files keep their order.
  A forced refresh selects every candidate.
\<close>

theorem paths_to_refresh_selects_changed:
  "paths_to_refresh fingerprint stat get_file folder paths refresh_embeddings
   = (if refresh_embeddings then paths
      else filter (\<lambda>p. p \<in> set (map failed_path (failed_files folder))
                      \<or> get_file (fingerprint p) = None
                      \<or> stat p = None
                      \<or> (\<exists>existing st. get_file (fingerprint p) = Some existing
                            \<and> stat p = Some st
                            \<and> (1000000 \<le> \<bar>st_mtime st - modified_at existing\<bar>
                                 \<or> file_size existing \<noteq> st_size st
                                 \<or> checksum_missing existing))) paths)"
  by (simp add: paths_to_refresh_def refresh_loop_filter)

theorem paths_to_refresh_selects_changed_witness:
  "paths_to_refresh (\<lambda>p. ''f1'')
     (\<lambda>p. if p = ''/docs/a.txt'' then Some \<lparr> st_mtime = 1000000, st_size = 5 \<rparr>
           else Some \<lparr> st_mtime = 2000000, st_size = 5 \<rparr>)
     (\<lambda>fid. Some example_existing) example_folder [''/docs/a.txt'', ''/docs/b.txt''] False
   = [''/docs/b.txt'']"
  using paths_to_refresh_selects_changed [of "\<lambda>p. ''f1''"
      "\<lambda>p. if p = ''/docs/a.txt'' then Some \<lparr> st_mtime = 1000000, st_size = 5 \<rparr>
            else Some \<lparr> st_mtime = 2000000, st_size = 5 \<rparr>"
      "\<lambda>fid. Some example_existing" example_folder "[''/docs/a.txt'', ''/docs/b.txt'']" False]
  by (simp add: example_folder_def example_existing_def example_record_def checksum_missing_def)

subsection \<open>One run at a time\<close>

text \<open>What the parts of a run leave alone: the lock and the number of suspended runs.\<close>

lemma set_running_progress_frame [simp]:
  "lock_locked (set_running_progress msg ix) = lock_locked ix"
  "runs (set_running_progress msg ix) = runs ix"
  by (simp_all add: set_running_progress_def split: option.splits)

lemma event_set_frame [simp]:
  "lock_locked (event_set ix) = lock_locked ix"
  "length (runs (event_set ix)) = length (runs ix)"
  by (simp_all add: event_set_def)

lemma start_file_frame [simp]:
  "lock_locked (start_file now folder p ix) = lock_locked ix"
  "runs (start_file now folder p ix) = runs ix"
  by (simp_all add: start_file_def)

lemma begin_folder_frame [simp]:
  "lock_locked (begin_folder folder ps ix) = lock_locked ix"
  "runs (begin_folder folder ps ix) = runs ix"
  by (simp_all add: begin_folder_def)

lemma end_folder_frame [simp]:
  "lock_locked (end_folder started n folder ix) = lock_locked ix"
  "runs (end_folder started n folder ix) = runs ix"
  by (simp_all add: end_folder_def)

lemma cleanup_frame [simp]:
  "lock_locked (cleanup ix) = lock_locked ix"
  "length (runs (cleanup ix)) = length (runs ix)"
  by (simp_all add: cleanup_def)

lemma complete_frame [simp]:
  "lock_locked (complete now started n ix) = lock_locked ix"
  "length (runs (complete now started n ix)) = length (runs ix)"
  by (simp_all add: complete_def)

lemma wait_then_start_frame [simp]:
  "lock_locked (snd (wait_then_start now started n folder p rest bs ix)) = lock_locked ix"
  "runs (snd (wait_then_start now started n folder p rest bs ix)) = runs ix"
  by (simp_all add: wait_then_start_def)

lemma run_batches_frame_both:
  "lock_locked (snd (run_batches now started n bs ix)) = lock_locked ix
   \<and> length (runs (snd (run_batches now started n bs ix))) = length (runs ix)"
  by (induction now started n bs ix rule: run_batches.induct)
     (simp_all add: Let_def split_def split: option.splits)

lemma run_batches_frame [simp]:
  "lock_locked (snd (run_batches now started n bs ix)) = lock_locked ix"
  "length (runs (snd (run_batches now started n bs ix))) = length (runs ix)"
  using run_batches_frame_both [of now started n bs ix] by simp_all

lemma continue_loop_frame [simp]:
  "lock_locked (snd (continue_loop now r ix)) = lock_locked ix"
  "length (runs (snd (continue_loop now r ix))) = length (runs ix)"
  by (simp_all add: continue_loop_def split_def split: option.splits)

lemma file_done_frame [simp]:
  "lock_locked (snd (file_done now oc r ix)) = lock_locked ix"
  "length (runs (snd (file_done now oc r ix))) = length (runs ix)"
  by (simp_all add: file_done_def Let_def split: outcome.splits)

lemma wake_frame [simp]:
  "lock_locked (snd (wake now r ix)) = lock_locked ix"
  "runs (snd (wake now r ix)) = runs ix"
  by (simp_all add: wake_def)

lemma settle_inv:
  assumes "lock_inv ix" and "i < length (runs ix)"
    and "lock_locked (snd res) = lock_locked ix"
    and "length (runs (snd res)) = length (runs ix)"
  shows "lock_inv (settle i res)"
proof -
  obtain fr ix' where res: "res = (fr, ix')" by (cases res)
  have i0: "i = 0" and one: "length (runs ix') = 1" and l: "lock_locked ix'"
    using assms res by (auto simp: lock_inv_def)
  show ?thesis
    unfolding res using i0 one l
    by (cases fr) (auto simp: settle_def lock_inv_def)
qed

lemma refresh_inv:
  assumes "lock_inv ix"
  shows "lock_inv (snd (refresh now args ix))"
proof (cases "lock_locked ix")
  case True
  then show ?thesis using assms by (simp add: refresh_def)
next
  case False
  then have e: "runs ix = []" using assms by (simp add: lock_inv_def)
  let ?ix1 = "(event_set (ix\<lparr> lock_locked := True, is_paused := False \<rparr>))
                \<lparr> cancelled_folders := [], pending_paths := [], active_folder := None,
                  active_path := None, active_started_at := None \<rparr>"
  have r1: "runs ?ix1 = []" using e by (simp add: event_set_def)
  show ?thesis
  proof (cases "target_folders args = []")
    case True
    then show ?thesis using False r1
      by (simp add: refresh_def Let_def lock_inv_def event_set_def)
  next
    case nonempty: False
    let ?n = "int (sum_list (map (\<lambda>b. length (snd b)) (folder_batches args)))"
    let ?ix2 = "?ix1\<lparr> current_run_started := Some now, current_run_total := ?n,
                       current_processed := 0,
                       progress := \<lparr> status = Running, started_at = Some now,
                                     completed_at = None, processed = 0, failed = 0,
                                     total = or_none ?n, message = None,
                                     last_error = None, failed_items = [] \<rparr> \<rparr>"
    obtain fr ix3 where rb: "run_batches now now ?n (folder_batches args) ?ix2 = (fr, ix3)"
      by (cases "run_batches now now ?n (folder_batches args) ?ix2") auto
    have "length (runs ix3) = length (runs ?ix2)"
      using run_batches_frame(2) [of now now ?n "folder_batches args" ?ix2] rb by simp
    then have r3: "runs ix3 = []" using e by (simp add: event_set_def)
    have "lock_locked ix3 = lock_locked ?ix2"
      using run_batches_frame(1) [of now now ?n "folder_batches args" ?ix2] rb by simp
    then have l3: "lock_locked ix3" by simp
    show ?thesis
      using False nonempty rb r3 l3
      by (cases fr) (simp_all add: refresh_def Let_def lock_inv_def)
  qed
qed

lemma pause_frame [simp]: "lock_locked (pause ix) = lock_locked ix" "runs (pause ix) = runs ix"
  by (simp_all add: pause_def)

lemma resume_frame [simp]:
  "lock_locked (resume ix) = lock_locked ix" "length (runs (resume ix)) = length (runs ix)"
  by (simp_all add: resume_def)

lemma cancel_folder_frame [simp]:
  "lock_locked (cancel_folder fid ix) = lock_locked ix" "runs (cancel_folder fid ix) = runs ix"
  by (simp_all add: cancel_folder_def)

lemma step_inv: "lock_inv ix \<Longrightarrow> lock_inv (step ev ix)"
proof (cases ev)
  case (RefreshCall now args)
  assume "lock_inv ix"
  then show ?thesis using RefreshCall by (simp add: step_def refresh_inv)
next
  case PauseCall
  assume "lock_inv ix"
  then show ?thesis using PauseCall by (simp add: step_def lock_inv_def)
next
  case ResumeCall
  assume "lock_inv ix"
  then show ?thesis using ResumeCall
    by (simp add: step_def lock_inv_def)
next
  case (CancelCall fid)
  assume "lock_inv ix"
  then show ?thesis using CancelCall by (simp add: step_def lock_inv_def)
next
  case (FileDone i now oc)
  assume "lock_inv ix"
  then show ?thesis using FileDone by (simp add: step_def settle_inv)
next
  case (Wake i now)
  assume "lock_inv ix"
  then show ?thesis using Wake by (simp add: step_def settle_inv)
qed

lemma reachable_inv: "reachable ix \<Longrightarrow> lock_inv ix"
proof (induction rule: reachable.induct)
  case reachable_init
  show ?case by (simp add: lock_inv_def Indexer_init_def)
next
  case (reachable_step ix ev)
  then show ?case by (simp add: step_inv)
qed

text \<open>
  C5. In every state the indexer can reach, a \<open>refresh\<close> that finds the lock held
  returns the current progress in the same step and leaves the state as it is, so the
  request is neither queued nor waited for; the lock is held exactly while a refresh is
  suspended inside it, and at most one is.
\<close>

theorem refresh_while_running_returns_progress:
  assumes "reachable ix"
  shows "(lock_locked ix \<longrightarrow> refresh now args ix = (Some (progress ix), ix))
       \<and> lock_locked ix = (runs ix \<noteq> [])
       \<and> length (runs ix) \<le> 1"
  using reachable_inv [OF assms] by (simp add: lock_inv_def refresh_def)

lemma first_refresh_locks:
  "lock_locked (step (RefreshCall 10 two_files) Indexer_init)"
  by code_simp

theorem refresh_while_running_returns_progress_witness:
  "lock_locked (step (RefreshCall 10 two_files) Indexer_init)
   \<and> refresh 15 two_files (step (RefreshCall 10 two_files) Indexer_init)
       = (Some (progress (step (RefreshCall 10 two_files) Indexer_init)),
          step (RefreshCall 10 two_files) Indexer_init)
   \<and> length (runs (step (RefreshCall 10 two_files) Indexer_init)) \<le> 1"
proof -
  have r: "reachable (step (RefreshCall 10 two_files) Indexer_init)"
    by (rule reachable_step) (rule reachable_init)
  show ?thesis
    using refresh_while_running_returns_progress [OF r, of 15 two_files] first_refresh_locks
    by simp
qed

subsection \<open>Pause while a file is in flight\<close>

text \<open>
  C9. A run over two files is paused while the first is in flight. The pause leaves the
  file in flight and the status becomes \<open>paused\<close>. When the file ends, the loop waits
  before the second file, as the claim says, but \<open>_set_running_progress\<close> has put the
  status back to \<open>running\<close> although \<open>resume\<close> was not called: the indexer is
  paused and reports \<open>running\<close>.
\<close>

theorem pause_status_overwritten_when_file_ends:
  "map (\<lambda>ix. (status (progress ix), is_paused ix, pause_event ix,
               map (\<lambda>r. (run_file r, run_phase r)) (runs ix)))
       [step (RefreshCall 10 two_files) Indexer_init,
        step PauseCall (step (RefreshCall 10 two_files) Indexer_init),
        step (FileDone 0 20 Succeeded)
          (step PauseCall (step (RefreshCall 10 two_files) Indexer_init))]
   = [(Running, False, True, [(''/docs/a.txt'', InFlight)]),
      (Paused, True, False, [(''/docs/a.txt'', InFlight)]),
      (Running, True, False, [(''/docs/b.txt'', Waiting)])]"
  by code_simp

end
